theory Spec2Isabelle
  imports Complex_Main
begin

section \<open>Rasters and the D8 constants\<close>

text \<open>
  A grid cell is a pair of \<open>int\<close> coordinates \<open>(x, y)\<close>, as the source's
  \<open>GridCell\<close> (two \<open>int\<close> fields).
\<close>

type_synonym GridCell = "int \<times> int"

text \<open>
  Modelled from the spec: the class \<open>Array2D\<close> (richdem/common/Array2D.hpp) is not part
  of the sources at hand. Section 3 and 4.1 of the specification give its contract: a
  dense grid of width W and height H addressed by \<open>(x, y)\<close>, a nodata value, the cell
  lengths, an unchecked accessor, \<open>inGrid\<close>, \<open>isNoData\<close>, \<open>resize\<close> from a template
  with a fill value, \<open>setNoData\<close>, \<open>countval\<close> and \<open>size\<close>. The cells are a function
  of the coordinates; every access the algorithms make to a cell outside the grid is
  written out where it can happen (see \<open>line_loop\<close>).
\<close>

record 'a Array2D =
  width :: int
  height :: int
  cells :: "GridCell \<Rightarrow> 'a"
  noData :: 'a
  cellLengthX :: real
  cellLengthY :: real

definition inGrid :: "'a Array2D \<Rightarrow> int \<Rightarrow> int \<Rightarrow> bool" where
  "inGrid r x y = (0 \<le> x \<and> x < width r \<and> 0 \<le> y \<and> y < height r)"

definition cell :: "'a Array2D \<Rightarrow> int \<Rightarrow> int \<Rightarrow> 'a" where
  "cell r x y = cells r (x, y)"

definition isNoData :: "'a Array2D \<Rightarrow> int \<Rightarrow> int \<Rightarrow> bool" where
  "isNoData r x y = (cell r x y = noData r)"

definition set_cell :: "'a Array2D \<Rightarrow> int \<Rightarrow> int \<Rightarrow> 'a \<Rightarrow> 'a Array2D" where
  "set_cell r x y v = r\<lparr>cells := (cells r)((x, y) := v)\<rparr>"

definition resize :: "'a Array2D \<Rightarrow> 'b Array2D \<Rightarrow> 'a \<Rightarrow> 'a Array2D" where
  "resize r other fill =
     r\<lparr>width := width other, height := height other, cells := (\<lambda>c. fill),
       cellLengthX := cellLengthX other, cellLengthY := cellLengthY other\<rparr>"

definition setNoData :: "'a Array2D \<Rightarrow> 'a \<Rightarrow> 'a Array2D" where
  "setNoData r v = r\<lparr>noData := v\<rparr>"

definition setAll :: "'a Array2D \<Rightarrow> 'a \<Rightarrow> 'a Array2D" where
  "setAll r v = r\<lparr>cells := (\<lambda>c. v)\<rparr>"

text \<open>The cells of the grid in the order of the source's scans: rows outermost.\<close>

definition grid_cells :: "'a Array2D \<Rightarrow> GridCell list" where
  "grid_cells r =
     concat (map (\<lambda>y. map (\<lambda>x. (int x, int y)) [0..<nat (width r)]) [0..<nat (height r)])"

definition countval :: "'a Array2D \<Rightarrow> 'a \<Rightarrow> int" where
  "countval r v = int (length (filter (\<lambda>c. cells r c = v) (grid_cells r)))"

definition numDataCells :: "'a Array2D \<Rightarrow> int" where
  "numDataCells r = int (length (filter (\<lambda>c. cells r c \<noteq> noData r) (grid_cells r)))"

text \<open>The rows of a raster, top row first: the view in which concrete rasters are written.\<close>

definition rows :: "'a Array2D \<Rightarrow> 'a list list" where
  "rows r = map (\<lambda>y. map (\<lambda>x. cell r (int x) (int y)) [0..<nat (width r)]) [0..<nat (height r)]"

text \<open>
  The direction tables \<open>dx\<close>, \<open>dy\<close>, \<open>d8_inverse\<close> (nine entries each, indexed by the
  direction) and the value \<open>FLOWDIR_NO_DATA\<close> live in richdem/common/constants.hpp, which
  is not part of the sources at hand; the specification leaves the numbering to the
  implementation. They are a parameter of every function that reads them.
\<close>

record d8_consts =
  dx :: "int list"
  dy :: "int list"
  d8_inverse :: "int list"
  FLOWDIR_NO_DATA :: int

text \<open>
  Modelled from the spec: \<open>NO_FLOW\<close> is declared in the missing constants.hpp; section 6
  of the specification fixes it: "by convention NO_FLOW = 0".
\<close>

definition NO_FLOW :: int where
  "NO_FLOW = 0"

section \<open>D8 flow accumulation\<close>

text \<open>
  The state of \<open>d8_flow_accum\<close>: the \<open>area\<close> raster (the out parameter), the local
  \<open>dependency\<close> raster and the queue \<open>sources\<close>. The source declares \<open>dependency\<close> as
  \<open>Array2D<int8_t>\<close>; its cells are kept as \<open>int\<close> here, and \<open>dependency_range\<close> below
  shows that on every raster whose data cells hold directions 0..8 each value stays
  between 0 and 8, so that no \<open>int8_t\<close> operation of the source wraps. The cells of
  \<open>area\<close> (element type \<open>U\<close> of the template) are unbounded integers in
  \<open>drain_cell\<close> and \<open>d8_flow_accum\<close>; \<open>drain_cell_U\<close> and \<open>d8_flow_accum_U\<close> below
  store them into \<open>U\<close>. The first pair of loops carries an OpenMP pragma; the model
  is its sequential execution.
\<close>

record fa_state =
  area :: "int Array2D"
  dependency :: "int Array2D"
  sources :: "GridCell list"

text \<open>The body of the first pair of loops (lines 76 to 94), for the cell \<open>(x, y)\<close>.\<close>

definition dependency_cell :: "d8_consts \<Rightarrow> int Array2D \<Rightarrow> fa_state \<Rightarrow> GridCell \<Rightarrow> fa_state" where
  "dependency_cell k flowdirs s c =
     (case c of (x, y) \<Rightarrow>
        if isNoData flowdirs x y
        then s\<lparr>area := set_cell (area s) x y (noData (area s))\<rparr>
        else
          let n = cell flowdirs x y in
          if n = NO_FLOW then s
          else
            let nx = x + dx k ! nat n; ny = y + dy k ! nat n in
            if \<not> inGrid flowdirs nx ny then s
            else s\<lparr>dependency :=
                     set_cell (dependency s) nx ny (cell (dependency s) nx ny + 1)\<rparr>)"

text \<open>The body of the drain loop (lines 112 to 134) after \<open>c\<close> has been popped.\<close>

definition drain_cell :: "d8_consts \<Rightarrow> int Array2D \<Rightarrow> GridCell \<Rightarrow> fa_state \<Rightarrow> fa_state" where
  "drain_cell k flowdirs c s =
     (case c of (cx, cy) \<Rightarrow>
        let s1 = s\<lparr>area := set_cell (area s) cx cy (cell (area s) cx cy + 1)\<rparr>;
            n = cell flowdirs cx cy in
        if n = NO_FLOW then s1
        else
          let nx = cx + dx k ! nat n; ny = cy + dy k ! nat n in
          if \<not> inGrid flowdirs nx ny then s1
          else if isNoData flowdirs nx ny then s1
          else
            let s2 = s1\<lparr>area :=
                       set_cell (area s1) nx ny (cell (area s1) nx ny + cell (area s1) cx cy)\<rparr>;
                s3 = s2\<lparr>dependency :=
                       set_cell (dependency s2) nx ny (cell (dependency s2) nx ny - 1)\<rparr> in
            if cell (dependency s3) nx ny = 0
            then s3\<lparr>sources := sources s3 @ [(nx, ny)]\<rparr>
            else s3)"

text \<open>The number of in-grid cells whose dependency is positive: the variant of the drain.\<close>

definition pending :: "int Array2D \<Rightarrow> fa_state \<Rightarrow> nat" where
  "pending flowdirs s =
     card {c. inGrid flowdirs (fst c) (snd c) \<and> 1 \<le> cell (dependency s) (fst c) (snd c)}"

subsection \<open>The drain loop terminates\<close>

text \<open>
  Auxiliary notions for the proofs: \<open>target\<close> is the cell \<open>(nx, ny)\<close> the source
  computes from a cell's direction, \<open>downstream\<close> is that cell when the drain loop
  propagates into it (direction not \<open>NO_FLOW\<close>, target in the grid and not nodata),
  \<open>bump\<close> is the self increment of line 115 and \<open>pour\<close> is lines 130 to 134.
  \<open>drain_cell_eq\<close> states the loop body in these terms.
\<close>

definition target :: "d8_consts \<Rightarrow> int Array2D \<Rightarrow> GridCell \<Rightarrow> GridCell" where
  "target k fd c = (fst c + dx k ! nat (cells fd c), snd c + dy k ! nat (cells fd c))"

definition downstream :: "d8_consts \<Rightarrow> int Array2D \<Rightarrow> GridCell \<Rightarrow> GridCell option" where
  "downstream k fd c =
     (if cells fd c = NO_FLOW then None
      else if \<not> inGrid fd (fst (target k fd c)) (snd (target k fd c)) then None
      else if cells fd (target k fd c) = noData fd then None
      else Some (target k fd c))"

definition bump :: "fa_state \<Rightarrow> GridCell \<Rightarrow> fa_state" where
  "bump s c = s\<lparr>area := (area s)\<lparr>cells := (cells (area s))(c := cells (area s) c + 1)\<rparr>\<rparr>"

definition pour :: "fa_state \<Rightarrow> GridCell \<Rightarrow> GridCell \<Rightarrow> fa_state" where
  "pour s c n =
     s\<lparr>area := (area s)\<lparr>cells := (cells (area s))(n := cells (area s) n + cells (area s) c)\<rparr>,
       dependency := (dependency s)\<lparr>cells := (cells (dependency s))(n := cells (dependency s) n - 1)\<rparr>,
       sources := (if cells (dependency s) n = 1 then sources s @ [n] else sources s)\<rparr>"

lemma drain_cell_eq:
  "drain_cell k fd c s =
     (case downstream k fd c of None \<Rightarrow> bump s c | Some n \<Rightarrow> pour (bump s c) c n)"
  by (cases c)
     (simp add: drain_cell_def downstream_def target_def bump_def pour_def Let_def
        cell_def isNoData_def set_cell_def)

lemma downstream_inGrid:
  "downstream k fd c = Some n \<Longrightarrow> inGrid fd (fst n) (snd n)"
  by (auto simp: downstream_def split: if_splits)

lemma finite_inGrid: "finite {c. inGrid r (fst c) (snd c)}"
proof -
  have "{c. inGrid r (fst c) (snd c)} \<subseteq> {0..<width r} \<times> {0..<height r}"
    by (auto simp: inGrid_def)
  then show ?thesis by (rule finite_subset) simp
qed

lemma finite_inGrid_conj: "finite {c. inGrid r (fst c) (snd c) \<and> P c}"
  by (rule finite_subset[OF _ finite_inGrid[of r]]) auto

lemma pending_bump [simp]: "pending fd (bump s c) = pending fd s"
  by (simp add: pending_def bump_def)

lemma sources_bump [simp]: "sources (bump s c) = sources s"
  by (simp add: bump_def)

lemma dependency_bump [simp]: "dependency (bump s c) = dependency s"
  by (simp add: bump_def)

lemma pending_sources_upd [simp]: "pending fd (s\<lparr>sources := q\<rparr>) = pending fd s"
  by (simp add: pending_def)

lemma pending_pour_le: "pending fd (pour s c n) \<le> pending fd s"
  unfolding pending_def
  by (intro card_mono finite_inGrid_conj) (auto simp: pour_def cell_def split: if_splits)

lemma pending_pour_less:
  assumes "inGrid fd (fst n) (snd n)" "cells (dependency s) n = 1"
  shows "pending fd (pour s c n) < pending fd s"
  unfolding pending_def
proof (rule psubset_card_mono)
  show "finite {c. inGrid fd (fst c) (snd c) \<and> 1 \<le> cell (dependency s) (fst c) (snd c)}"
    by (rule finite_inGrid_conj)
  have "n \<in> {c. inGrid fd (fst c) (snd c) \<and> 1 \<le> cell (dependency s) (fst c) (snd c)}"
    using assms by (simp add: cell_def)
  moreover have "n \<notin> {ca. inGrid fd (fst ca) (snd ca) \<and> 1 \<le> cell (dependency (pour s c n)) (fst ca) (snd ca)}"
    using assms by (simp add: cell_def pour_def)
  moreover have "{ca. inGrid fd (fst ca) (snd ca) \<and> 1 \<le> cell (dependency (pour s c n)) (fst ca) (snd ca)}
     \<subseteq> {c. inGrid fd (fst c) (snd c) \<and> 1 \<le> cell (dependency s) (fst c) (snd c)}"
    by (auto simp: pour_def cell_def split: if_splits)
  ultimately show "{ca. inGrid fd (fst ca) (snd ca) \<and> 1 \<le> cell (dependency (pour s c n)) (fst ca) (snd ca)}
     \<subset> {c. inGrid fd (fst c) (snd c) \<and> 1 \<le> cell (dependency s) (fst c) (snd c)}"
    by blast
qed

lemma sources_pour:
  "sources (pour s c n) = (if cells (dependency s) n = 1 then sources s @ [n] else sources s)"
  by (simp add: pour_def)

lemma drain_cell_variant:
  "2 * pending fd (drain_cell k fd c s) + length (sources (drain_cell k fd c s))
     \<le> 2 * pending fd s + length (sources s)"
proof (cases "downstream k fd c")
  case None
  then show ?thesis by (simp add: drain_cell_eq)
next
  case (Some n)
  have g: "inGrid fd (fst n) (snd n)" using Some by (rule downstream_inGrid)
  show ?thesis
  proof (cases "cells (dependency s) n = 1")
    case True
    then have "pending fd (pour (bump s c) c n) < pending fd (bump s c)"
      using g by (intro pending_pour_less) simp_all
    then show ?thesis using Some True by (simp add: drain_cell_eq sources_pour)
  next
    case False
    have "pending fd (pour (bump s c) c n) \<le> pending fd (bump s c)"
      by (rule pending_pour_le)
    then show ?thesis using Some False by (simp add: drain_cell_eq sources_pour)
  qed
qed

text \<open>
  The drain loop (lines 108 to 135). Each iteration pops one cell and pushes at most one,
  and a push takes a positive dependency to 0, so twice the number of positive
  dependencies plus the length of the queue decreases.
\<close>

function drain :: "d8_consts \<Rightarrow> int Array2D \<Rightarrow> fa_state \<Rightarrow> fa_state" where
  "drain k flowdirs s =
     (case sources s of
        [] \<Rightarrow> s
      | c # rest \<Rightarrow> drain k flowdirs (drain_cell k flowdirs c (s\<lparr>sources := rest\<rparr>)))"
  by pat_completeness auto
termination
proof (relation "measure (\<lambda>(k, flowdirs, s). 2 * pending flowdirs s + length (sources s))")
  show "wf (measure (\<lambda>(k, flowdirs, s). 2 * pending flowdirs s + length (sources s)))"
    by simp
next
  fix k :: d8_consts and flowdirs :: "int Array2D" and s :: fa_state and c rest
  assume "sources s = c # rest"
  then show "((k, flowdirs, drain_cell k flowdirs c (s\<lparr>sources := rest\<rparr>)), (k, flowdirs, s))
      \<in> measure (\<lambda>(k, flowdirs, s). 2 * pending flowdirs s + length (sources s))"
    using drain_cell_variant[of flowdirs k c "s\<lparr>sources := rest\<rparr>"] by simp
qed

declare drain.simps [simp del]

text \<open>
  The closing loop of the source (lines 139 to 141): \<open>i\<close> runs from -1 down to -8 and
  every iteration adds \<open>dependency.countval(-1)\<close>.
\<close>

definition count_loops :: "int Array2D \<Rightarrow> int" where
  "count_loops dep = foldl (\<lambda>loops i. loops + countval dep (- 1)) 0 [- 1, - 2, - 3, - 4, - 5, - 6, - 7, - 8 :: int]"

text \<open>
  The number of data cells whose dependency is strictly greater than 0: what the
  specification calls the cycle count.
\<close>

definition cycle_cells :: "int Array2D \<Rightarrow> fa_state \<Rightarrow> int" where
  "cycle_cells flowdirs s =
     int (length (filter (\<lambda>c. cells flowdirs c \<noteq> noData flowdirs \<and> 0 < cells (dependency s) c)
                    (grid_cells flowdirs)))"

text \<open>
  The state in which \<open>d8_flow_accum\<close> leaves its rasters. \<open>dependency\<close> is built from
  the template \<open>flowdirs\<close> with fill 0 (line 64; its nodata value is never read and is
  kept at 0), \<open>area\<close> is resized with fill 0 and gets the nodata value -1 (lines 67, 68).
\<close>

definition accum_init :: "int Array2D \<Rightarrow> int Array2D \<Rightarrow> fa_state" where
  "accum_init flowdirs area0 =
     \<lparr>area = setNoData (resize area0 flowdirs 0) (- 1),
      dependency = setNoData (resize flowdirs flowdirs 0) 0,
      sources = []\<rparr>"

definition accum_dependencies :: "d8_consts \<Rightarrow> int Array2D \<Rightarrow> int Array2D \<Rightarrow> fa_state" where
  "accum_dependencies k flowdirs area0 =
     foldl (dependency_cell k flowdirs) (accum_init flowdirs area0) (grid_cells flowdirs)"

definition accum_sources :: "d8_consts \<Rightarrow> int Array2D \<Rightarrow> int Array2D \<Rightarrow> fa_state" where
  "accum_sources k flowdirs area0 =
     (let s = accum_dependencies k flowdirs area0 in
      s\<lparr>sources :=
          filter (\<lambda>c. cell (dependency s) (fst c) (snd c) = 0 \<and> \<not> isNoData flowdirs (fst c) (snd c))
            (grid_cells flowdirs)\<rparr>)"

definition d8_flow_accum_run :: "d8_consts \<Rightarrow> int Array2D \<Rightarrow> int Array2D \<Rightarrow> fa_state" where
  "d8_flow_accum_run k flowdirs area0 = drain k flowdirs (accum_sources k flowdirs area0)"

text \<open>The out parameter \<open>area\<close> after the call, and the number the source logs as loops.\<close>

definition d8_flow_accum :: "d8_consts \<Rightarrow> int Array2D \<Rightarrow> int Array2D \<Rightarrow> int Array2D" where
  "d8_flow_accum k flowdirs area0 = area (d8_flow_accum_run k flowdirs area0)"

definition d8_flow_accum_loops :: "d8_consts \<Rightarrow> int Array2D \<Rightarrow> int Array2D \<Rightarrow> int" where
  "d8_flow_accum_loops k flowdirs area0 = count_loops (dependency (d8_flow_accum_run k flowdirs area0))"

subsection \<open>Concrete rasters\<close>

text \<open>
  A raster written as its rows (cell lengths 1), and a direction numbering that agrees
  with the scenarios of the specification, where direction 3 is the east step (+1, 0):
  1 = north (0, -1), then clockwise to 8 = north-west; the inverse of d is d + 4 or d - 4.
\<close>

definition raster :: "int \<Rightarrow> int \<Rightarrow> 'a \<Rightarrow> 'a list list \<Rightarrow> 'a Array2D" where
  "raster w h nd rs =
     \<lparr>width = w, height = h,
      cells = (\<lambda>c. if 0 \<le> fst c \<and> fst c < w \<and> 0 \<le> snd c \<and> snd c < h
                   then rs ! nat (snd c) ! nat (fst c) else nd),
      noData = nd, cellLengthX = 1, cellLengthY = 1\<rparr>"

definition compass :: d8_consts where
  "compass =
     \<lparr>dx = [0, 0, 1, 1, 1, 0, - 1, - 1, - 1],
      dy = [0, - 1, - 1, 0, 1, 1, 1, 0, - 1],
      d8_inverse = [0, 5, 6, 7, 8, 1, 2, 3, 4],
      FLOWDIR_NO_DATA = 255\<rparr>"

text \<open>
  The rasters of the scenarios: the fork (four corners flowing into the centre), a row
  with a nodata hole, two cells that flow into each other, an empty
  raster for the out parameter before the call, and the position a stack dequeues.
\<close>

definition fork :: "int Array2D" where
  "fork = raster 3 3 255 [[4, 0, 6], [0, 0, 0], [2, 0, 8]]"


definition two_cycle :: "int Array2D" where
  "two_cycle = raster 2 1 255 [[3, 7]]"

definition no_area :: "int Array2D" where
  "no_area = raster 0 0 0 []"

definition lifo :: "GridCell list \<Rightarrow> nat" where
  "lifo q = length q - 1"

section \<open>The invariant of the drain loop\<close>

text \<open>
  A data cell is an in-grid cell whose direction is not nodata; \<open>upstream k fd n\<close> are
  the data cells the drain loop propagates from into \<open>n\<close>.
\<close>

definition data_cell :: "int Array2D \<Rightarrow> GridCell \<Rightarrow> bool" where
  "data_cell fd c = (inGrid fd (fst c) (snd c) \<and> cells fd c \<noteq> noData fd)"

definition upstream :: "d8_consts \<Rightarrow> int Array2D \<Rightarrow> GridCell \<Rightarrow> GridCell set" where
  "upstream k fd n = {u. data_cell fd u \<and> downstream k fd u = Some n}"

lemma downstream_data: "downstream k fd c = Some n \<Longrightarrow> data_cell fd n"
  by (auto simp: downstream_def data_cell_def split: if_splits)

lemma finite_data: "finite {c. data_cell fd c}"
  unfolding data_cell_def by (rule finite_inGrid_conj)

lemma finite_upstream [simp]: "finite (upstream k fd n)"
  by (rule finite_subset[OF _ finite_data[of fd]]) (auto simp: upstream_def)

lemma area_drain_cell:
  "cells (area (drain_cell k fd c s)) =
     (case downstream k fd c of
        None \<Rightarrow> (cells (area s))(c := cells (area s) c + 1)
      | Some m \<Rightarrow> ((cells (area s))(c := cells (area s) c + 1))
           (m := ((cells (area s))(c := cells (area s) c + 1)) m + (cells (area s) c + 1)))"
  by (simp add: drain_cell_eq bump_def pour_def split: option.splits)

lemma dependency_drain_cell:
  "cells (dependency (drain_cell k fd c s)) =
     (case downstream k fd c of
        None \<Rightarrow> cells (dependency s)
      | Some m \<Rightarrow> (cells (dependency s))(m := cells (dependency s) m - 1))"
  by (simp add: drain_cell_eq bump_def pour_def split: option.splits)

lemma sources_drain_cell:
  "sources (drain_cell k fd c s) =
     (case downstream k fd c of
        None \<Rightarrow> sources s
      | Some m \<Rightarrow> if cells (dependency s) m = 1 then sources s @ [m] else sources s)"
  by (simp add: drain_cell_eq bump_def pour_def split: option.splits)

text \<open>
  The invariant, for the set \<open>P\<close> of cells already dequeued: \<open>P\<close> holds data cells
  and is closed under \<open>upstream\<close>; the queue holds, once each, exactly the data cells
  outside \<open>P\<close> with dependency 0; the dependency of a data cell counts its upstream
  cells outside \<open>P\<close>; the area of a data cell is the sum of the areas of its upstream
  cells in \<open>P\<close>, plus 1 once the cell itself is in \<open>P\<close>.
\<close>

definition drain_inv :: "d8_consts \<Rightarrow> int Array2D \<Rightarrow> GridCell set \<Rightarrow> fa_state \<Rightarrow> bool" where
  "drain_inv k fd P s =
     (P \<subseteq> {c. data_cell fd c} \<and>
      (\<forall>c\<in>P. upstream k fd c \<subseteq> P) \<and>
      distinct (sources s) \<and>
      set (sources s) = {c. data_cell fd c \<and> c \<notin> P \<and> cells (dependency s) c = 0} \<and>
      (\<forall>n. data_cell fd n \<longrightarrow> cells (dependency s) n = int (card (upstream k fd n - P))) \<and>
      (\<forall>n. data_cell fd n \<longrightarrow>
           cells (area s) n = (if n \<in> P then 1 else 0) + (\<Sum>u\<in>upstream k fd n \<inter> P. cells (area s) u)))"

lemma drain_inv_step:
  assumes inv: "drain_inv k fd P s" and q: "sources s = xs @ c # ys"
  shows "drain_inv k fd (insert c P) (drain_cell k fd c (s\<lparr>sources := xs @ ys\<rparr>))"
proof -
  define s' where "s' = drain_cell k fd c (s\<lparr>sources := xs @ ys\<rparr>)"
  let ?P' = "insert c P"
  let ?ar = "cells (area s)" and ?dep = "cells (dependency s)"
  from inv have P_data: "P \<subseteq> {c. data_cell fd c}"
    and P_up: "\<And>x. x \<in> P \<Longrightarrow> upstream k fd x \<subseteq> P"
    and dist: "distinct (sources s)"
    and src: "set (sources s) = {c. data_cell fd c \<and> c \<notin> P \<and> ?dep c = 0}"
    and dep: "\<And>n. data_cell fd n \<Longrightarrow> ?dep n = int (card (upstream k fd n - P))"
    and ar: "\<And>n. data_cell fd n \<Longrightarrow>
           ?ar n = (if n \<in> P then 1 else 0) + (\<Sum>u\<in>upstream k fd n \<inter> P. ?ar u)"
    unfolding drain_inv_def by blast+
  have "c \<in> set (sources s)" using q by simp
  then have c_data: "data_cell fd c" and c_P: "c \<notin> P" and c_dep: "?dep c = 0"
    using src by auto
  have c_up: "upstream k fd c \<subseteq> P"
    using dep[OF c_data] c_dep by auto
  have c_self: "c \<notin> upstream k fd c" using c_up c_P by auto
  have c_q: "c \<notin> set (xs @ ys)" and dist': "distinct (xs @ ys)"
    using dist q by auto
  have set': "set (xs @ ys) = set (sources s) - {c}"
    using dist q by auto
  have ar_c: "?ar c = (\<Sum>u\<in>upstream k fd c. ?ar u)"
  proof -
    have "upstream k fd c \<inter> P = upstream k fd c" using c_up by auto
    then show ?thesis using ar[OF c_data] c_P by simp
  qed
  show ?thesis
  proof (cases "downstream k fd c")
    case None
    have up_c: "\<And>n. c \<notin> upstream k fd n" using None by (simp add: upstream_def)
    have up_eq: "\<And>n. upstream k fd n - ?P' = upstream k fd n - P"
      using up_c by auto
    have up_int: "\<And>n. upstream k fd n \<inter> ?P' = upstream k fd n \<inter> P"
      using up_c by auto
    have ar': "cells (area s') = ?ar(c := ?ar c + 1)"
      using None by (simp add: area_drain_cell s'_def)
    have dep': "cells (dependency s') = ?dep"
      using None by (simp add: dependency_drain_cell s'_def)
    have q': "sources s' = xs @ ys"
      using None by (simp add: sources_drain_cell s'_def)
    have 1: "?P' \<subseteq> {c. data_cell fd c}" using P_data c_data by auto
    have 2: "\<forall>x\<in>?P'. upstream k fd x \<subseteq> ?P'" using P_up c_up by auto
    have 3: "distinct (sources s')" using dist' q' by simp
    have 4: "set (sources s') = {x. data_cell fd x \<and> x \<notin> ?P' \<and> cells (dependency s') x = 0}"
      unfolding q' dep' set' src by auto
    have 5: "\<forall>n. data_cell fd n \<longrightarrow> cells (dependency s') n = int (card (upstream k fd n - ?P'))"
      unfolding dep' up_eq using dep by simp
    have 6: "\<forall>n. data_cell fd n \<longrightarrow>
           cells (area s') n = (if n \<in> ?P' then 1 else 0) + (\<Sum>u\<in>upstream k fd n \<inter> ?P'. cells (area s') u)"
    proof (intro allI impI)
      fix n assume n: "data_cell fd n"
      have "(\<Sum>u\<in>upstream k fd n \<inter> P. cells (area s') u) = (\<Sum>u\<in>upstream k fd n \<inter> P. ?ar u)"
        by (rule sum.cong) (use c_P in \<open>auto simp: ar'\<close>)
      then show "cells (area s') n = (if n \<in> ?P' then 1 else 0) + (\<Sum>u\<in>upstream k fd n \<inter> ?P'. cells (area s') u)"
        unfolding up_int using ar[OF n] c_P by (auto simp: ar')
    qed
    show ?thesis unfolding drain_inv_def s'_def[symmetric] using 1 2 3 4 5 6 by blast
  next
    case (Some m)
    have m_data: "data_cell fd m" using Some by (rule downstream_data)
    have c_m: "c \<in> upstream k fd m" using Some c_data by (simp add: upstream_def)
    have m_c: "m \<noteq> c" using c_m c_self by auto
    have m_P: "m \<notin> P" using P_up[of m] c_m c_P by blast
    have up_c: "\<And>n. n \<noteq> m \<Longrightarrow> c \<notin> upstream k fd n" using Some by (simp add: upstream_def)
    have up_eq: "\<And>n. n \<noteq> m \<Longrightarrow> upstream k fd n - ?P' = upstream k fd n - P"
      using up_c by auto
    have up_int: "\<And>n. n \<noteq> m \<Longrightarrow> upstream k fd n \<inter> ?P' = upstream k fd n \<inter> P"
      using up_c by auto
    have up_m: "upstream k fd m - ?P' = (upstream k fd m - P) - {c}" by auto
    have c_mP: "c \<in> upstream k fd m - P" using c_m c_P by simp
    have card_m: "int (card (upstream k fd m - ?P')) = int (card (upstream k fd m - P)) - 1"
    proof -
      have "finite (upstream k fd m - P)" by simp
      then have "card (upstream k fd m - P) > 0" using c_mP by (auto simp: card_gt_0_iff)
      moreover have "card ((upstream k fd m - P) - {c}) = card (upstream k fd m - P) - 1"
        using c_mP by simp
      ultimately show ?thesis unfolding up_m by simp
    qed
    have dep_m: "?dep m \<ge> 1"
    proof -
      have "finite (upstream k fd m - P)" by simp
      then have "card (upstream k fd m - P) > 0" using c_mP by (auto simp: card_gt_0_iff)
      then show ?thesis using dep[OF m_data] by simp
    qed
    have ar': "cells (area s') = (?ar(c := ?ar c + 1))(m := ?ar m + (?ar c + 1))"
      using Some m_c by (simp add: area_drain_cell s'_def)
    have dep': "cells (dependency s') = ?dep(m := ?dep m - 1)"
      using Some by (simp add: dependency_drain_cell s'_def)
    have q': "sources s' = (if ?dep m = 1 then xs @ ys @ [m] else xs @ ys)"
      using Some by (simp add: sources_drain_cell s'_def)
    have m_q: "m \<notin> set (xs @ ys)"
      using set' src dep_m by auto
    have 1: "?P' \<subseteq> {c. data_cell fd c}" using P_data c_data by auto
    have 2: "\<forall>x\<in>?P'. upstream k fd x \<subseteq> ?P'" using P_up c_up by auto
    have 3: "distinct (sources s')" using dist' q' m_q by auto
    have 4: "set (sources s') = {x. data_cell fd x \<and> x \<notin> ?P' \<and> cells (dependency s') x = 0}"
    proof -
      have base: "set (xs @ ys) = {x. data_cell fd x \<and> x \<notin> ?P' \<and> ?dep x = 0}"
        unfolding set' src by blast
      show ?thesis
      proof (cases "?dep m = 1")
        case True
        then have "set (sources s') = insert m (set (xs @ ys))"
          by (simp add: q')
        also have "\<dots> = insert m {x. data_cell fd x \<and> x \<notin> ?P' \<and> ?dep x = 0}"
          by (simp only: base)
        also have "\<dots> = {x. data_cell fd x \<and> x \<notin> ?P' \<and> (?dep(m := ?dep m - 1)) x = 0}"
          using True m_data m_P m_c by (auto simp del: insert_iff simp add: fun_upd_apply)
        finally show ?thesis by (simp only: dep')
      next
        case False
        then have "set (sources s') = set (xs @ ys)"
          by (simp add: q')
        also have "\<dots> = {x. data_cell fd x \<and> x \<notin> ?P' \<and> ?dep x = 0}"
          by (simp only: base)
        also have "\<dots> = {x. data_cell fd x \<and> x \<notin> ?P' \<and> (?dep(m := ?dep m - 1)) x = 0}"
          using False dep_m by (auto simp add: fun_upd_apply)
        finally show ?thesis by (simp only: dep')
      qed
    qed
    have 5: "\<forall>n. data_cell fd n \<longrightarrow> cells (dependency s') n = int (card (upstream k fd n - ?P'))"
    proof (intro allI impI)
      fix n assume n: "data_cell fd n"
      show "cells (dependency s') n = int (card (upstream k fd n - ?P'))"
      proof (cases "n = m")
        case True
        then show ?thesis using card_m dep[OF m_data] by (simp add: dep')
      next
        case False
        then show ?thesis using up_eq[OF False] dep[OF n] by (simp add: dep')
      qed
    qed
    have 6: "\<forall>n. data_cell fd n \<longrightarrow>
           cells (area s') n = (if n \<in> ?P' then 1 else 0) + (\<Sum>u\<in>upstream k fd n \<inter> ?P'. cells (area s') u)"
    proof (intro allI impI)
      fix n assume n: "data_cell fd n"
      have old: "(\<Sum>u\<in>upstream k fd n \<inter> P. cells (area s') u) = (\<Sum>u\<in>upstream k fd n \<inter> P. ?ar u)"
        by (rule sum.cong) (use c_P m_P in \<open>auto simp: ar'\<close>)
      show "cells (area s') n = (if n \<in> ?P' then 1 else 0) + (\<Sum>u\<in>upstream k fd n \<inter> ?P'. cells (area s') u)"
      proof (cases "n = m")
        case True
        have ins: "upstream k fd m \<inter> ?P' = insert c (upstream k fd m \<inter> P)"
          using c_m by auto
        have "(\<Sum>u\<in>upstream k fd m \<inter> ?P'. cells (area s') u)
              = cells (area s') c + (\<Sum>u\<in>upstream k fd m \<inter> P. cells (area s') u)"
          unfolding ins using c_P by (subst sum.insert) auto
        then show ?thesis
          using True old ar[OF m_data] m_P m_c by (simp add: ar')
      next
        case False
        show ?thesis
          unfolding up_int[OF False] old using ar[OF n] c_P False by (auto simp: ar')
      qed
    qed
    show ?thesis unfolding drain_inv_def s'_def[symmetric] using 1 2 3 4 5 6 by blast
  qed
qed

subsection \<open>The dependency count and the source scan\<close>

lemma grid_cells_product:
  "grid_cells r = map (\<lambda>p. (int (snd p), int (fst p))) (List.product [0..<nat (height r)] [0..<nat (width r)])"
  by (simp add: grid_cells_def List.product_concat_map map_concat comp_def)

lemma distinct_grid_cells [simp]: "distinct (grid_cells r)"
  unfolding grid_cells_product
  by (rule iffD2[OF distinct_map]) (auto simp: distinct_product inj_on_def)

lemma set_grid_cells [simp]: "set (grid_cells r) = {c. inGrid r (fst c) (snd c)}"
proof (rule set_eqI)
  fix c :: GridCell
  obtain x y where c: "c = (x, y)" by (cases c)
  have "(x, y) \<in> set (grid_cells r) \<longleftrightarrow> (\<exists>a<nat (height r). \<exists>b<nat (width r). x = int b \<and> y = int a)"
    by (auto simp: grid_cells_product image_iff)
  also have "\<dots> \<longleftrightarrow> inGrid r x y"
  proof
    assume "\<exists>a<nat (height r). \<exists>b<nat (width r). x = int b \<and> y = int a"
    then show "inGrid r x y" by (auto simp: inGrid_def)
  next
    assume g: "inGrid r x y"
    then have "nat y < nat (height r)" "nat x < nat (width r)" "x = int (nat x)" "y = int (nat y)"
      by (auto simp: inGrid_def)
    then show "\<exists>a<nat (height r). \<exists>b<nat (width r). x = int b \<and> y = int a" by blast
  qed
  finally show "c \<in> set (grid_cells r) \<longleftrightarrow> c \<in> {c. inGrid r (fst c) (snd c)}"
    by (simp add: c)
qed

text \<open>
  \<open>feeds k fd u n\<close>: the first pair of loops, at the cell \<open>u\<close>, increments the
  dependency of \<open>n\<close>.
\<close>

definition feeds :: "d8_consts \<Rightarrow> int Array2D \<Rightarrow> GridCell \<Rightarrow> GridCell \<Rightarrow> bool" where
  "feeds k fd u n =
     (cells fd u \<noteq> noData fd \<and> cells fd u \<noteq> NO_FLOW \<and> target k fd u = n \<and>
      inGrid fd (fst n) (snd n))"

lemma dependency_dependency_cell:
  "cells (dependency (dependency_cell k fd s c)) n =
     cells (dependency s) n + (if feeds k fd c n then 1 else 0)"
  by (cases c)
     (auto simp: dependency_cell_def feeds_def target_def Let_def cell_def isNoData_def set_cell_def)

lemma area_dependency_cell:
  "cells (area (dependency_cell k fd s c)) =
     (if cells fd c = noData fd then (cells (area s))(c := noData (area s)) else cells (area s))"
  by (cases c)
     (auto simp: dependency_cell_def Let_def cell_def isNoData_def set_cell_def)

lemma frame_dependency_cell [simp]:
  "sources (dependency_cell k fd s c) = sources s"
  "noData (area (dependency_cell k fd s c)) = noData (area s)"
  "width (area (dependency_cell k fd s c)) = width (area s)"
  "height (area (dependency_cell k fd s c)) = height (area s)"
  by (cases c; simp add: dependency_cell_def Let_def set_cell_def)+

lemma foldl_dependency_frame [simp]:
  "sources (foldl (dependency_cell k fd) s cs) = sources s"
  "noData (area (foldl (dependency_cell k fd) s cs)) = noData (area s)"
  "width (area (foldl (dependency_cell k fd) s cs)) = width (area s)"
  "height (area (foldl (dependency_cell k fd) s cs)) = height (area s)"
  by (induction cs arbitrary: s; simp)+

lemma foldl_dependency_count:
  "distinct cs \<Longrightarrow>
   cells (dependency (foldl (dependency_cell k fd) s cs)) n =
     cells (dependency s) n + int (card {u \<in> set cs. feeds k fd u n})"
proof (induction cs arbitrary: s)
  case Nil
  then show ?case by simp
next
  case (Cons c cs)
  have split: "{u \<in> set (c # cs). feeds k fd u n} =
      (if feeds k fd c n then insert c {u \<in> set cs. feeds k fd u n} else {u \<in> set cs. feeds k fd u n})"
    by auto
  have notin: "c \<notin> {u \<in> set cs. feeds k fd u n}" using Cons.prems by simp
  have fin: "finite {u \<in> set cs. feeds k fd u n}" by simp
  have "int (card {u \<in> set (c # cs). feeds k fd u n}) =
      (if feeds k fd c n then 1 else 0) + int (card {u \<in> set cs. feeds k fd u n})"
  proof (cases "feeds k fd c n")
    case True
    then show ?thesis
      unfolding split using card_insert_disjoint[OF fin notin] by simp
  next
    case False
    then show ?thesis unfolding split by simp
  qed
  moreover have "cells (dependency (foldl (dependency_cell k fd) (dependency_cell k fd s c) cs)) n =
      cells (dependency (dependency_cell k fd s c)) n + int (card {u \<in> set cs. feeds k fd u n})"
    using Cons.prems by (intro Cons.IH) simp
  ultimately show ?case by (simp add: dependency_dependency_cell)
qed

lemma foldl_dependency_area:
  "cells (area (foldl (dependency_cell k fd) s cs)) c =
     (if c \<in> set cs \<and> cells fd c = noData fd then noData (area s) else cells (area s) c)"
  by (induction cs arbitrary: s) (auto simp: area_dependency_cell)

lemma feeds_upstream:
  assumes "data_cell fd n"
  shows "{u \<in> set (grid_cells fd). feeds k fd u n} = upstream k fd n"
  using assms
  by (auto simp: feeds_def upstream_def downstream_def data_cell_def)

lemma accum_dependencies_dependency:
  "data_cell fd n \<Longrightarrow>
     cells (dependency (accum_dependencies k fd a0)) n = int (card (upstream k fd n))"
  unfolding accum_dependencies_def
  by (subst foldl_dependency_count)
     (simp_all add: feeds_upstream accum_init_def resize_def setNoData_def del: set_grid_cells)

lemma accum_dependencies_area:
  "cells (area (accum_dependencies k fd a0)) c =
     (if inGrid fd (fst c) (snd c) \<and> cells fd c = noData fd then - 1 else 0)"
  unfolding accum_dependencies_def
  by (simp add: foldl_dependency_area accum_init_def resize_def setNoData_def)

lemma accum_dependencies_shape [simp]:
  "width (area (accum_dependencies k fd a0)) = width fd"
  "height (area (accum_dependencies k fd a0)) = height fd"
  "noData (area (accum_dependencies k fd a0)) = - 1"
  unfolding accum_dependencies_def
  by (simp_all add: accum_init_def resize_def setNoData_def)

lemma accum_sources_inv: "drain_inv k fd {} (accum_sources k fd a0)"
  unfolding drain_inv_def
proof (intro conjI allI impI)
  show "distinct (sources (accum_sources k fd a0))"
    by (simp add: accum_sources_def Let_def)
  show "set (sources (accum_sources k fd a0)) =
      {c. data_cell fd c \<and> c \<notin> {} \<and> cells (dependency (accum_sources k fd a0)) c = 0}"
    by (auto simp: accum_sources_def Let_def data_cell_def cell_def isNoData_def)
  fix n assume n: "data_cell fd n"
  show "cells (dependency (accum_sources k fd a0)) n = int (card (upstream k fd n - {}))"
    using accum_dependencies_dependency[OF n] by (simp add: accum_sources_def Let_def)
  show "cells (area (accum_sources k fd a0)) n =
      (if n \<in> {} then 1 else 0) + (\<Sum>u\<in>upstream k fd n \<inter> {}. cells (area (accum_sources k fd a0)) u)"
    using n by (simp add: accum_sources_def Let_def accum_dependencies_area data_cell_def)
qed simp_all

subsection \<open>Runs of the drain in any order\<close>

lemma drain_inv_dependency:
  "drain_inv k fd P s \<Longrightarrow> data_cell fd n \<Longrightarrow>
     cells (dependency s) n = int (card (upstream k fd n - P))"
  unfolding drain_inv_def by blast

lemma drain_inv_area:
  "drain_inv k fd P s \<Longrightarrow> data_cell fd n \<Longrightarrow>
     cells (area s) n = (if n \<in> P then 1 else 0) + (\<Sum>u\<in>upstream k fd n \<inter> P. cells (area s) u)"
  unfolding drain_inv_def by blast

lemma drain_inv_sources:
  "drain_inv k fd P s \<Longrightarrow>
     set (sources s) = {c. data_cell fd c \<and> c \<notin> P \<and> cells (dependency s) c = 0}"
  unfolding drain_inv_def by blast

lemma drain_inv_distinct: "drain_inv k fd P s \<Longrightarrow> distinct (sources s)"
  unfolding drain_inv_def by blast

lemma same_cells_eq:
  fixes r1 r2 :: "'a Array2D"
  assumes "r1\<lparr>cells := f\<rparr> = r2\<lparr>cells := f\<rparr>" and "cells r1 = cells r2"
  shows "r1 = r2"
proof -
  have "r1 = (r1\<lparr>cells := f\<rparr>)\<lparr>cells := cells r1\<rparr>" by simp
  also have "\<dots> = (r2\<lparr>cells := f\<rparr>)\<lparr>cells := cells r2\<rparr>" using assms by simp
  also have "\<dots> = r2" by simp
  finally show ?thesis .
qed

text \<open>
  \<open>drained k fd\<close>: the data cells all of whose upstream cells are drained, that is the
  cells with no cycle upstream. \<open>drain_step\<close> is one iteration of the drain loop with
  the dequeued cell taken from any position of the queue; the source's loop takes the
  head (\<open>drain_steps\<close>).
\<close>

inductive_set drained :: "d8_consts \<Rightarrow> int Array2D \<Rightarrow> GridCell set" for k fd where
  "data_cell fd c \<Longrightarrow> (\<And>u. u \<in> upstream k fd c \<Longrightarrow> u \<in> drained k fd) \<Longrightarrow> c \<in> drained k fd"

inductive drain_step :: "d8_consts \<Rightarrow> int Array2D \<Rightarrow> fa_state \<Rightarrow> fa_state \<Rightarrow> bool" for k fd where
  "sources s = xs @ c # ys \<Longrightarrow> drain_step k fd s (drain_cell k fd c (s\<lparr>sources := xs @ ys\<rparr>))"

definition run_inv :: "d8_consts \<Rightarrow> int Array2D \<Rightarrow> int Array2D \<Rightarrow> GridCell set \<Rightarrow> fa_state \<Rightarrow> bool" where
  "run_inv k fd a P s =
     (drain_inv k fd P s \<and> P \<subseteq> drained k fd \<and>
      (\<forall>x. \<not> data_cell fd x \<longrightarrow> cells (area s) x = cells a x) \<and>
      (area s)\<lparr>cells := cells a\<rparr> = a)"

lemma run_inv_shape: "run_inv k fd a P s \<Longrightarrow> (area s)\<lparr>cells := cells a\<rparr> = a"
  unfolding run_inv_def by blast

lemma run_inv_drain_inv: "run_inv k fd a P s \<Longrightarrow> drain_inv k fd P s"
  unfolding run_inv_def by blast

lemma area_drain_cell_frame:
  "area (drain_cell k fd c s) = (area s)\<lparr>cells := cells (area (drain_cell k fd c s))\<rparr>"
  by (simp add: drain_cell_eq bump_def pour_def split: option.splits)

lemma area_sources_upd [simp]: "area (s\<lparr>sources := q\<rparr>) = area s"
  by simp

lemma run_inv_step:
  assumes inv: "run_inv k fd a P s" and q: "sources s = xs @ c # ys"
  shows "run_inv k fd a (insert c P) (drain_cell k fd c (s\<lparr>sources := xs @ ys\<rparr>))"
proof -
  define s' where "s' = drain_cell k fd c (s\<lparr>sources := xs @ ys\<rparr>)"
  from inv have di: "drain_inv k fd P s" and Pd: "P \<subseteq> drained k fd"
    and fr: "\<And>x. \<not> data_cell fd x \<Longrightarrow> cells (area s) x = cells a x"
    and sh: "(area s)\<lparr>cells := cells a\<rparr> = a"
    unfolding run_inv_def by blast+
  have di': "drain_inv k fd (insert c P) s'"
    unfolding s'_def using di q by (rule drain_inv_step)
  have "c \<in> set (sources s)" using q by simp
  then have c_data: "data_cell fd c" and c_dep: "cells (dependency s) c = 0"
    unfolding drain_inv_sources[OF di] by auto
  have "int (card (upstream k fd c - P)) = 0"
    using drain_inv_dependency[OF di c_data] c_dep by simp
  then have "upstream k fd c \<subseteq> P" by simp
  then have "c \<in> drained k fd"
    using c_data Pd by (intro drained.intros[of fd c k]) auto
  then have Pd': "insert c P \<subseteq> drained k fd" using Pd by simp
  have fr': "\<forall>x. \<not> data_cell fd x \<longrightarrow> cells (area s') x = cells a x"
  proof (intro allI impI)
    fix x assume x: "\<not> data_cell fd x"
    then have "x \<noteq> c" using c_data by auto
    moreover have "\<And>m. downstream k fd c = Some m \<Longrightarrow> x \<noteq> m"
      using x downstream_data by blast
    ultimately have "cells (area s') x = cells (area s) x"
      unfolding s'_def by (auto simp: area_drain_cell split: option.splits)
    then show "cells (area s') x = cells a x" using fr[OF x] by simp
  qed
  have "area s' = (area s)\<lparr>cells := cells (area s')\<rparr>"
    unfolding s'_def using area_drain_cell_frame[of k fd c "s\<lparr>sources := xs @ ys\<rparr>"] by simp
  then have "(area s')\<lparr>cells := cells a\<rparr> = (area s)\<lparr>cells := cells (area s'), cells := cells a\<rparr>"
    by simp
  then have sh': "(area s')\<lparr>cells := cells a\<rparr> = a"
    using sh by simp
  show ?thesis
    unfolding run_inv_def s'_def[symmetric] using di' Pd' fr' sh' by blast
qed

lemma run_inv_final:
  assumes inv: "run_inv k fd a P s" and q: "sources s = []"
  shows "P = drained k fd"
proof
  show "P \<subseteq> drained k fd" using inv unfolding run_inv_def by blast
  show "drained k fd \<subseteq> P"
  proof
    fix c assume "c \<in> drained k fd"
    then show "c \<in> P"
    proof (induction rule: drained.induct)
      case (1 c)
      from inv have di: "drain_inv k fd P s" unfolding run_inv_def by blast
      have "upstream k fd c - P = {}" using 1 by auto
      then have "cells (dependency s) c = 0"
        using drain_inv_dependency[OF di 1(1)] by simp
      moreover have "{c. data_cell fd c \<and> c \<notin> P \<and> cells (dependency s) c = 0} = {}"
        using drain_inv_sources[OF di] q by simp
      ultimately show ?case using 1(1) by blast
    qed
  qed
qed

text \<open>
  What an area raster satisfies once the queue is empty; at most one raster does
  (\<open>settled_unique\<close>).
\<close>

definition settled :: "d8_consts \<Rightarrow> int Array2D \<Rightarrow> int Array2D \<Rightarrow> (GridCell \<Rightarrow> int) \<Rightarrow> bool" where
  "settled k fd a f =
     ((\<forall>c\<in>drained k fd. f c = 1 + (\<Sum>u\<in>upstream k fd c. f u)) \<and>
      (\<forall>n. data_cell fd n \<and> n \<notin> drained k fd \<longrightarrow> f n = (\<Sum>u\<in>upstream k fd n \<inter> drained k fd. f u)) \<and>
      (\<forall>x. \<not> data_cell fd x \<longrightarrow> f x = cells a x))"

lemma settled_drained:
  "settled k fd a f \<Longrightarrow> c \<in> drained k fd \<Longrightarrow> f c = 1 + (\<Sum>u\<in>upstream k fd c. f u)"
  unfolding settled_def by blast

lemma settled_blocked:
  "settled k fd a f \<Longrightarrow> data_cell fd n \<Longrightarrow> n \<notin> drained k fd \<Longrightarrow>
     f n = (\<Sum>u\<in>upstream k fd n \<inter> drained k fd. f u)"
  unfolding settled_def by blast

lemma settled_nodata:
  "settled k fd a f \<Longrightarrow> \<not> data_cell fd x \<Longrightarrow> f x = cells a x"
  unfolding settled_def by blast

lemma drained_upstream: "c \<in> drained k fd \<Longrightarrow> upstream k fd c \<subseteq> drained k fd"
  by (auto elim: drained.cases)

lemma drained_data: "c \<in> drained k fd \<Longrightarrow> data_cell fd c"
  by (auto elim: drained.cases)

lemma run_inv_settled:
  assumes inv: "run_inv k fd a P s" and q: "sources s = []"
  shows "settled k fd a (cells (area s))"
proof -
  have P: "P = drained k fd" using inv q by (rule run_inv_final)
  from inv have di: "drain_inv k fd (drained k fd) s"
    and fr: "\<forall>x. \<not> data_cell fd x \<longrightarrow> cells (area s) x = cells a x"
    unfolding run_inv_def P by blast+
  have ar: "\<And>n. data_cell fd n \<Longrightarrow> cells (area s) n =
        (if n \<in> drained k fd then 1 else 0) + (\<Sum>u\<in>upstream k fd n \<inter> drained k fd. cells (area s) u)"
    using di by (rule drain_inv_area)
  have 1: "\<forall>c\<in>drained k fd. cells (area s) c = 1 + (\<Sum>u\<in>upstream k fd c. cells (area s) u)"
  proof
    fix c assume c: "c \<in> drained k fd"
    then have "upstream k fd c \<inter> drained k fd = upstream k fd c"
      using drained_upstream by blast
    then show "cells (area s) c = 1 + (\<Sum>u\<in>upstream k fd c. cells (area s) u)"
      using ar[OF drained_data[OF c]] c by simp
  qed
  have 2: "\<forall>n. data_cell fd n \<and> n \<notin> drained k fd \<longrightarrow>
        cells (area s) n = (\<Sum>u\<in>upstream k fd n \<inter> drained k fd. cells (area s) u)"
    using ar by simp
  show ?thesis unfolding settled_def using 1 2 fr by blast
qed

lemma settled_unique:
  assumes f: "settled k fd a f" and g: "settled k fd a g"
  shows "f = g"
proof
  fix x
  have dr: "\<And>c. c \<in> drained k fd \<Longrightarrow> f c = g c"
  proof -
    fix c assume "c \<in> drained k fd"
    then show "f c = g c"
    proof (induction rule: drained.induct)
      case (1 c)
      have c: "c \<in> drained k fd" using 1 by (intro drained.intros[of fd c k]) auto
      have "(\<Sum>u\<in>upstream k fd c. f u) = (\<Sum>u\<in>upstream k fd c. g u)"
        by (rule sum.cong) (use 1 in auto)
      then show ?case using settled_drained[OF f c] settled_drained[OF g c] by simp
    qed
  qed
  show "f x = g x"
  proof (cases "data_cell fd x")
    case False
    then show ?thesis using settled_nodata[OF f] settled_nodata[OF g] by simp
  next
    case True
    show ?thesis
    proof (cases "x \<in> drained k fd")
      case True
      then show ?thesis by (rule dr)
    next
      case False
      have "(\<Sum>u\<in>upstream k fd x \<inter> drained k fd. f u) = (\<Sum>u\<in>upstream k fd x \<inter> drained k fd. g u)"
        by (rule sum.cong) (use dr in auto)
      then show ?thesis
        using settled_blocked[OF f True False] settled_blocked[OF g True False] by simp
    qed
  qed
qed

lemma run_inv_init: "run_inv k fd (area (accum_sources k fd a0)) {} (accum_sources k fd a0)"
  unfolding run_inv_def using accum_sources_inv[of k fd a0] by simp

lemma run_inv_steps:
  assumes "(drain_step k fd)\<^sup>*\<^sup>* s s'" and "run_inv k fd a P s"
  shows "\<exists>P'. run_inv k fd a P' s'"
  using assms
proof (induction rule: rtranclp_induct)
  case base
  then show ?case by blast
next
  case (step y z)
  then obtain P' where P': "run_inv k fd a P' y" by blast
  from step(2) show ?case
  proof (cases rule: drain_step.cases)
    case (1 xs c ys)
    then show ?thesis using run_inv_step[OF P' 1(2)] by blast
  qed
qed

lemma drain_steps: "(drain_step k fd)\<^sup>*\<^sup>* s (drain k fd s)"
proof (induction k fd s rule: drain.induct)
  case (1 k fd s)
  show ?case
  proof (cases "sources s")
    case Nil
    then show ?thesis by (subst drain.simps) simp
  next
    case (Cons c rest)
    then have "sources s = [] @ c # rest" by simp
    then have "drain_step k fd s (drain_cell k fd c (s\<lparr>sources := [] @ rest\<rparr>))"
      by (rule drain_step.intros)
    moreover have "(drain_step k fd)\<^sup>*\<^sup>* (drain_cell k fd c (s\<lparr>sources := rest\<rparr>))
        (drain k fd (drain_cell k fd c (s\<lparr>sources := rest\<rparr>)))"
      using Cons by (rule 1)
    moreover have "drain k fd s = drain k fd (drain_cell k fd c (s\<lparr>sources := rest\<rparr>))"
      using Cons by (subst drain.simps) simp
    ultimately show ?thesis by (simp add: converse_rtranclp_into_rtranclp)
  qed
qed

lemma sources_drain [simp]: "sources (drain k fd s) = []"
proof (induction k fd s rule: drain.induct)
  case (1 k fd s)
  show ?case
  proof (cases "sources s")
    case Nil
    then show ?thesis by (subst drain.simps) simp
  next
    case (Cons c rest)
    then show ?thesis using 1[OF Cons] by (subst drain.simps) simp
  qed
qed

lemma run_area_unique:
  assumes r1: "(drain_step k fd)\<^sup>*\<^sup>* (accum_sources k fd a0) s1" and q1: "sources s1 = []"
    and r2: "(drain_step k fd)\<^sup>*\<^sup>* (accum_sources k fd a0) s2" and q2: "sources s2 = []"
  shows "area s1 = area s2"
proof -
  let ?a = "area (accum_sources k fd a0)"
  obtain P1 where P1: "run_inv k fd ?a P1 s1" using run_inv_steps[OF r1 run_inv_init] by blast
  obtain P2 where P2: "run_inv k fd ?a P2 s2" using run_inv_steps[OF r2 run_inv_init] by blast
  have "cells (area s1) = cells (area s2)"
    using run_inv_settled[OF P1 q1] run_inv_settled[OF P2 q2] by (rule settled_unique)
  moreover have "(area s1)\<lparr>cells := cells ?a\<rparr> = (area s2)\<lparr>cells := cells ?a\<rparr>"
    using run_inv_shape[OF P1] run_inv_shape[OF P2] by simp
  ultimately show ?thesis by (rule same_cells_eq[rotated])
qed

subsection \<open>Other queue disciplines\<close>

text \<open>
  A direction raster is well formed when the tables have their nine entries and every
  in-grid cell holds nodata or a direction 0..8 (section 3 of the specification); the
  source indexes \<open>dx\<close> and \<open>dy\<close> with the cell's value unchecked.
\<close>

definition dirs_ok :: "d8_consts \<Rightarrow> int Array2D \<Rightarrow> bool" where
  "dirs_ok k fd =
     (length (dx k) = 9 \<and> length (dy k) = 9 \<and>
      list_all (\<lambda>c. cells fd c = noData fd \<or> (0 \<le> cells fd c \<and> cells fd c \<le> 8)) (grid_cells fd))"

text \<open>
  The drain loop with another container in place of the FIFO queue: \<open>pick\<close> chooses
  the position of the cell to dequeue among the pending ones (0 for the queue of the
  source, the last position for a stack, the position of a least key for a priority
  queue).
\<close>

function drain_with :: "(GridCell list \<Rightarrow> nat) \<Rightarrow> d8_consts \<Rightarrow> int Array2D \<Rightarrow> fa_state \<Rightarrow> fa_state" where
  "drain_with pick k flowdirs s =
     (if sources s = [] then s
      else
        let i = pick (sources s) mod length (sources s) in
        drain_with pick k flowdirs
          (drain_cell k flowdirs (sources s ! i)
             (s\<lparr>sources := take i (sources s) @ drop (Suc i) (sources s)\<rparr>)))"
  by pat_completeness auto
termination
proof (relation "measure (\<lambda>(pick, k, flowdirs, s). 2 * pending flowdirs s + length (sources s))")
  show "wf (measure (\<lambda>(pick, k, flowdirs, s). 2 * pending flowdirs s + length (sources s)))"
    by simp
next
  fix pick :: "GridCell list \<Rightarrow> nat" and k :: d8_consts and flowdirs :: "int Array2D"
    and s :: fa_state and i
  assume ne: "sources s \<noteq> []" and i: "i = pick (sources s) mod length (sources s)"
  have "i < length (sources s)" using ne i by simp
  then have "length (take i (sources s) @ drop (Suc i) (sources s)) < length (sources s)"
    by simp
  then show "((pick, k, flowdirs, drain_cell k flowdirs (sources s ! i)
        (s\<lparr>sources := take i (sources s) @ drop (Suc i) (sources s)\<rparr>)), (pick, k, flowdirs, s))
      \<in> measure (\<lambda>(pick, k, flowdirs, s). 2 * pending flowdirs s + length (sources s))"
    using drain_cell_variant[of flowdirs k "sources s ! i"
        "s\<lparr>sources := take i (sources s) @ drop (Suc i) (sources s)\<rparr>"]
    by simp
qed

declare drain_with.simps [simp del]

lemma drain_with_steps: "(drain_step k fd)\<^sup>*\<^sup>* s (drain_with pick k fd s)"
proof (induction pick k fd s rule: drain_with.induct)
  case (1 pick k fd s)
  show ?case
  proof (cases "sources s = []")
    case True
    then show ?thesis by (subst drain_with.simps) simp
  next
    case False
    define i where "i = pick (sources s) mod length (sources s)"
    define s' where "s' = drain_cell k fd (sources s ! i)
             (s\<lparr>sources := take i (sources s) @ drop (Suc i) (sources s)\<rparr>)"
    have "i < length (sources s)" using False by (simp add: i_def)
    then have "sources s = take i (sources s) @ (sources s ! i) # drop (Suc i) (sources s)"
      by (rule id_take_nth_drop)
    then have "drain_step k fd s s'"
      unfolding s'_def by (rule drain_step.intros)
    moreover have "(drain_step k fd)\<^sup>*\<^sup>* s' (drain_with pick k fd s')"
      unfolding s'_def using False i_def by (rule 1)
    moreover have "drain_with pick k fd s = drain_with pick k fd s'"
      using False by (subst drain_with.simps) (simp add: Let_def s'_def i_def)
    ultimately show ?thesis by (simp add: converse_rtranclp_into_rtranclp)
  qed
qed

lemma sources_drain_with [simp]: "sources (drain_with pick k fd s) = []"
proof (induction pick k fd s rule: drain_with.induct)
  case (1 pick k fd s)
  show ?case
  proof (cases "sources s = []")
    case True
    then show ?thesis by (subst drain_with.simps) simp
  next
    case False
    then show ?thesis using 1[OF False refl] by (subst drain_with.simps) (simp add: Let_def)
  qed
qed

lemma run_area:
  assumes "(drain_step k fd)\<^sup>*\<^sup>* (accum_sources k fd a0) s'" and "sources s' = []"
  shows "area s' = d8_flow_accum k fd a0"
  unfolding d8_flow_accum_def d8_flow_accum_run_def
  using assms drain_steps sources_drain by (rule run_area_unique)


subsection \<open>Acyclic flow graphs\<close>

text \<open>
  The flow graph on the data cells: an edge from a data cell to the data cell downstream
  of it. \<open>upslope k fd c\<close> are the data cells whose flow path includes \<open>c\<close>, the cell
  \<open>c\<close> itself among them.
\<close>

definition flow_edge :: "d8_consts \<Rightarrow> int Array2D \<Rightarrow> (GridCell \<times> GridCell) set" where
  "flow_edge k fd = {(u, n). data_cell fd u \<and> downstream k fd u = Some n}"

definition upslope :: "d8_consts \<Rightarrow> int Array2D \<Rightarrow> GridCell \<Rightarrow> GridCell set" where
  "upslope k fd c = {d. data_cell fd d \<and> (d, c) \<in> (flow_edge k fd)\<^sup>*}"


lemma flow_edge_data: "(u, n) \<in> flow_edge k fd \<Longrightarrow> data_cell fd u \<and> data_cell fd n"
  by (auto simp: flow_edge_def dest: downstream_data)



lemma rtrancl_flow_data:
  "(d, c) \<in> (flow_edge k fd)\<^sup>* \<Longrightarrow> data_cell fd c \<Longrightarrow> data_cell fd d"
  by (induction rule: converse_rtrancl_induct) (auto dest: flow_edge_data)

lemma finite_upslope [simp]: "finite (upslope k fd c)"
  by (rule finite_subset[OF _ finite_data[of fd]]) (auto simp: upslope_def)








subsection \<open>Only the offsets of the directions in use matter\<close>


















subsection \<open>Sinks\<close>









lemma numDataCells_card: "numDataCells fd = int (card {c. data_cell fd c})"
proof -
  have "length (filter (\<lambda>c. cells fd c \<noteq> noData fd) (grid_cells fd))
      = card ({c. cells fd c \<noteq> noData fd} \<inter> set (grid_cells fd))"
    by (rule distinct_length_filter) simp
  moreover have "{c. cells fd c \<noteq> noData fd} \<inter> set (grid_cells fd) = {c. data_cell fd c}"
    by (auto simp: data_cell_def)
  ultimately show ?thesis
    unfolding numDataCells_def by simp
qed


subsection \<open>The cells the drain dequeues\<close>

text \<open>
  \<open>drain_order\<close> follows the recursion of \<open>drain\<close> and lists the cells in the order
  in which the loop dequeues them (one entry per iteration, that is per execution of the
  self increment of line 115).
\<close>

function drain_order :: "d8_consts \<Rightarrow> int Array2D \<Rightarrow> fa_state \<Rightarrow> GridCell list" where
  "drain_order k flowdirs s =
     (case sources s of
        [] \<Rightarrow> []
      | c # rest \<Rightarrow> c # drain_order k flowdirs (drain_cell k flowdirs c (s\<lparr>sources := rest\<rparr>)))"
  by pat_completeness auto
termination
proof (relation "measure (\<lambda>(k, flowdirs, s). 2 * pending flowdirs s + length (sources s))")
  show "wf (measure (\<lambda>(k, flowdirs, s). 2 * pending flowdirs s + length (sources s)))"
    by simp
next
  fix k :: d8_consts and flowdirs :: "int Array2D" and s :: fa_state and c rest
  assume "sources s = c # rest"
  then show "((k, flowdirs, drain_cell k flowdirs c (s\<lparr>sources := rest\<rparr>)), (k, flowdirs, s))
      \<in> measure (\<lambda>(k, flowdirs, s). 2 * pending flowdirs s + length (sources s))"
    using drain_cell_variant[of flowdirs k c "s\<lparr>sources := rest\<rparr>"] by simp
qed

declare drain_order.simps [simp del]

lemma drain_order_fresh:
  "drain_inv k fd P s \<Longrightarrow>
     distinct (drain_order k fd s) \<and> set (drain_order k fd s) \<inter> P = {} \<and>
     set (drain_order k fd s) \<subseteq> {c. data_cell fd c}"
proof (induction k fd s arbitrary: P rule: drain_order.induct)
  case (1 k fd s)
  show ?case
  proof (cases "sources s")
    case Nil
    then show ?thesis by (simp add: drain_order.simps[of k fd s])
  next
    case (Cons c rest)
    let ?s' = "drain_cell k fd c (s\<lparr>sources := rest\<rparr>)"
    have "sources s = [] @ c # rest" using Cons by simp
    then have "drain_inv k fd (insert c P) (drain_cell k fd c (s\<lparr>sources := [] @ rest\<rparr>))"
      by (rule drain_inv_step[OF "1.prems"])
    then have inv': "drain_inv k fd (insert c P) ?s'" by simp
    have ih: "distinct (drain_order k fd ?s') \<and> set (drain_order k fd ?s') \<inter> insert c P = {} \<and>
        set (drain_order k fd ?s') \<subseteq> {c. data_cell fd c}"
      using Cons inv' by (rule "1.IH")
    have "c \<in> set (sources s)" using Cons by simp
    then have c: "data_cell fd c" "c \<notin> P"
      unfolding drain_inv_sources[OF "1.prems"] by auto
    have eq: "drain_order k fd s = c # drain_order k fd ?s'"
      using Cons by (simp add: drain_order.simps[of k fd s])
    show ?thesis unfolding eq using ih c by auto
  qed
qed

lemma drain_order_bound:
  "length (drain_order k fd (accum_sources k fd a0)) \<le> nat (numDataCells fd)"
proof -
  let ?xs = "drain_order k fd (accum_sources k fd a0)"
  have f: "distinct ?xs \<and> set ?xs \<inter> {} = {} \<and> set ?xs \<subseteq> {c. data_cell fd c}"
    using accum_sources_inv by (rule drain_order_fresh)
  then have "length ?xs = card (set ?xs)" by (simp add: distinct_card)
  also have "\<dots> \<le> card {c. data_cell fd c}"
    using f by (intro card_mono finite_data) simp
  finally show ?thesis by (simp add: numDataCells_card)
qed

text \<open>
  \<open>drain_pushes\<close> lists the cells the loop pushes (line 134), in order: the cells an
  iteration appends to the queue that remains after the pop.
\<close>

function drain_pushes :: "d8_consts \<Rightarrow> int Array2D \<Rightarrow> fa_state \<Rightarrow> GridCell list" where
  "drain_pushes k flowdirs s =
     (case sources s of
        [] \<Rightarrow> []
      | c # rest \<Rightarrow>
          drop (length rest) (sources (drain_cell k flowdirs c (s\<lparr>sources := rest\<rparr>))) @
          drain_pushes k flowdirs (drain_cell k flowdirs c (s\<lparr>sources := rest\<rparr>)))"
  by pat_completeness auto
termination
proof (relation "measure (\<lambda>(k, flowdirs, s). 2 * pending flowdirs s + length (sources s))")
  show "wf (measure (\<lambda>(k, flowdirs, s). 2 * pending flowdirs s + length (sources s)))"
    by simp
next
  fix k :: d8_consts and flowdirs :: "int Array2D" and s :: fa_state and c rest
  assume "sources s = c # rest"
  then show "((k, flowdirs, drain_cell k flowdirs c (s\<lparr>sources := rest\<rparr>)), (k, flowdirs, s))
      \<in> measure (\<lambda>(k, flowdirs, s). 2 * pending flowdirs s + length (sources s))"
    using drain_cell_variant[of flowdirs k c "s\<lparr>sources := rest\<rparr>"] by simp
qed

declare drain_pushes.simps [simp del]

lemma sources_drain_cell_append:
  "sources (drain_cell k fd c s) = sources s @ drop (length (sources s)) (sources (drain_cell k fd c s))"
  by (simp add: sources_drain_cell split: option.splits)

lemma drain_pushes_fresh:
  "drain_inv k fd P s \<Longrightarrow>
     distinct (sources s @ drain_pushes k fd s) \<and> set (sources s @ drain_pushes k fd s) \<inter> P = {}"
proof (induction k fd s arbitrary: P rule: drain_pushes.induct)
  case (1 k fd s)
  show ?case
  proof (cases "sources s")
    case Nil
    then show ?thesis by (simp add: drain_pushes.simps[of k fd s])
  next
    case (Cons c rest)
    define s' where "s' = drain_cell k fd c (s\<lparr>sources := rest\<rparr>)"
    define new where "new = drop (length rest) (sources s')"
    have "sources s = [] @ c # rest" using Cons by simp
    then have "drain_inv k fd (insert c P) (drain_cell k fd c (s\<lparr>sources := [] @ rest\<rparr>))"
      by (rule drain_inv_step[OF "1.prems"])
    then have inv': "drain_inv k fd (insert c P) s'" by (simp add: s'_def)
    have ih: "distinct (sources s' @ drain_pushes k fd s') \<and>
        set (sources s' @ drain_pushes k fd s') \<inter> insert c P = {}"
      unfolding s'_def using Cons inv'[unfolded s'_def] by (rule "1.IH")
    have src': "sources s' = rest @ new"
      unfolding s'_def new_def
      using sources_drain_cell_append[of k fd c "s\<lparr>sources := rest\<rparr>"] by simp
    have eq: "drain_pushes k fd s = new @ drain_pushes k fd s'"
      using Cons by (simp add: drain_pushes.simps[of k fd s] s'_def new_def)
    have "c \<in> set (sources s)" using Cons by simp
    then have c: "c \<notin> P"
      unfolding drain_inv_sources[OF "1.prems"] by auto
    show ?thesis
      unfolding eq Cons using ih c unfolding src' by auto
  qed
qed



subsection \<open>The dependency values fit \<open>int8_t\<close>\<close>

text \<open>
  On a well-formed raster a cell has at most eight cells feeding it, one per direction,
  so every value the \<open>dependency\<close> raster takes, during the dependency scan
  (\<open>dependency_range_scan\<close>) and during any run of the drain (\<open>dependency_range\<close>),
  lies between 0 and 8. In particular no cell ever holds -1, and the number the source
  logs as loops is 0 (\<open>d8_flow_accum_loops_zero\<close>).
\<close>

lemma dirs_ok_cell:
  assumes "dirs_ok k fd" "inGrid fd (fst u) (snd u)" "cells fd u \<noteq> noData fd"
  shows "0 \<le> cells fd u \<and> cells fd u \<le> 8"
proof -
  have "u \<in> set (grid_cells fd)" using assms(2) by simp
  moreover have "list_all (\<lambda>c. cells fd c = noData fd \<or> (0 \<le> cells fd c \<and> cells fd c \<le> 8)) (grid_cells fd)"
    using assms(1) unfolding dirs_ok_def by blast
  ultimately have "cells fd u = noData fd \<or> (0 \<le> cells fd u \<and> cells fd u \<le> 8)"
    unfolding list_all_iff by blast
  then show ?thesis using assms(3) by blast
qed

lemma feeds_bound:
  assumes ok: "dirs_ok k fd"
  shows "card {u. inGrid fd (fst u) (snd u) \<and> feeds k fd u n} \<le> 8"
proof -
  let ?origin_of = "\<lambda>d::int. (fst n - dx k ! nat d, snd n - dy k ! nat d)"
  have "{u. inGrid fd (fst u) (snd u) \<and> feeds k fd u n} \<subseteq> ?origin_of ` {1..8}"
  proof
    fix u assume "u \<in> {u. inGrid fd (fst u) (snd u) \<and> feeds k fd u n}"
    then have g: "inGrid fd (fst u) (snd u)" and f: "feeds k fd u n" by auto
    from f have nd: "cells fd u \<noteq> noData fd" and nf: "cells fd u \<noteq> NO_FLOW"
      and t: "target k fd u = n" by (simp_all add: feeds_def)
    have "0 \<le> cells fd u \<and> cells fd u \<le> 8" using ok g nd by (rule dirs_ok_cell)
    then have "cells fd u \<in> {1..8}" using nf by (simp add: NO_FLOW_def)
    moreover have "u = ?origin_of (cells fd u)"
      using t by (cases u) (auto simp: target_def)
    ultimately show "u \<in> ?origin_of ` {1..8}" by blast
  qed
  then have "card {u. inGrid fd (fst u) (snd u) \<and> feeds k fd u n} \<le> card (?origin_of ` {1..8::int})"
    by (intro card_mono) auto
  also have "\<dots> \<le> card {1..8::int}" by (rule card_image_le) simp
  finally show ?thesis by simp
qed

lemma dependency_range_scan:
  assumes ok: "dirs_ok k fd"
  shows "0 \<le> cells (dependency (foldl (dependency_cell k fd) (accum_init fd a0) (take i (grid_cells fd)))) n \<and>
         cells (dependency (foldl (dependency_cell k fd) (accum_init fd a0) (take i (grid_cells fd)))) n \<le> 8"
proof -
  let ?cs = "take i (grid_cells fd)"
  have d: "distinct ?cs" by simp
  have "set ?cs \<subseteq> set (grid_cells fd)" by (rule set_take_subset)
  then have "{u \<in> set ?cs. feeds k fd u n} \<subseteq> {u. inGrid fd (fst u) (snd u) \<and> feeds k fd u n}"
    by auto
  then have "card {u \<in> set ?cs. feeds k fd u n} \<le> card {u. inGrid fd (fst u) (snd u) \<and> feeds k fd u n}"
    by (intro card_mono finite_inGrid_conj)
  then have "card {u \<in> set ?cs. feeds k fd u n} \<le> 8"
    using feeds_bound[OF ok, of n] by simp
  moreover have "cells (dependency (accum_init fd a0)) n = 0"
    by (simp add: accum_init_def resize_def setNoData_def)
  ultimately show ?thesis
    using foldl_dependency_count[OF d, of k fd "accum_init fd a0" n] by simp
qed

lemma accum_sources_dependency_range:
  assumes ok: "dirs_ok k fd"
  shows "0 \<le> cells (dependency (accum_sources k fd a0)) n \<and> cells (dependency (accum_sources k fd a0)) n \<le> 8"
  using dependency_range_scan[OF ok, of a0 "length (grid_cells fd)" n]
  by (simp add: accum_sources_def accum_dependencies_def Let_def)

lemma upstream_bound:
  assumes ok: "dirs_ok k fd"
  shows "card (upstream k fd n - P) \<le> 8"
proof -
  have "upstream k fd n - P \<subseteq> {u. inGrid fd (fst u) (snd u) \<and> feeds k fd u n}"
    by (auto simp: upstream_def feeds_def downstream_def data_cell_def split: if_splits)
  then have "card (upstream k fd n - P) \<le> card {u. inGrid fd (fst u) (snd u) \<and> feeds k fd u n}"
    by (intro card_mono finite_inGrid_conj)
  then show ?thesis using feeds_bound[OF ok, of n] by simp
qed

lemma drain_step_dependency_frame:
  assumes "(drain_step k fd)\<^sup>*\<^sup>* s s'" "\<not> data_cell fd x"
  shows "cells (dependency s') x = cells (dependency s) x"
  using assms
proof (induction rule: rtranclp_induct)
  case base
  then show ?case by simp
next
  case (step y z)
  from step(2) have "cells (dependency z) x = cells (dependency y) x"
  proof (cases rule: drain_step.cases)
    case (1 xs c ys)
    have "\<And>m. downstream k fd c = Some m \<Longrightarrow> x \<noteq> m"
      using step.prems downstream_data by blast
    then show ?thesis
      unfolding 1 by (auto simp: dependency_drain_cell split: option.splits)
  qed
  then show ?case using step by simp
qed

lemma dependency_range:
  assumes ok: "dirs_ok k fd" and run: "(drain_step k fd)\<^sup>*\<^sup>* (accum_sources k fd a0) s"
  shows "0 \<le> cells (dependency s) n \<and> cells (dependency s) n \<le> 8"
proof (cases "data_cell fd n")
  case True
  obtain P where "run_inv k fd (area (accum_sources k fd a0)) P s"
    using run_inv_steps[OF run run_inv_init] by blast
  then have "drain_inv k fd P s" by (rule run_inv_drain_inv)
  then have "cells (dependency s) n = int (card (upstream k fd n - P))"
    using True by (rule drain_inv_dependency)
  then show ?thesis using upstream_bound[OF ok, of n P] by simp
next
  case False
  then have "cells (dependency s) n = cells (dependency (accum_sources k fd a0)) n"
    using run by (intro drain_step_dependency_frame)
  then show ?thesis using accum_sources_dependency_range[OF ok, of a0 n] by simp
qed

lemma d8_flow_accum_loops_zero:
  assumes ok: "dirs_ok k fd"
  shows "d8_flow_accum_loops k fd a0 = 0"
proof -
  let ?s = "d8_flow_accum_run k fd a0"
  have "\<And>c. cells (dependency ?s) c \<noteq> - 1"
  proof -
    fix c
    have "0 \<le> cells (dependency ?s) c \<and> cells (dependency ?s) c \<le> 8"
      unfolding d8_flow_accum_run_def using ok drain_steps by (rule dependency_range)
    then show "cells (dependency ?s) c \<noteq> - 1" by simp
  qed
  then have "countval (dependency ?s) (- 1) = 0"
    by (simp add: countval_def)
  then show ?thesis by (simp add: d8_flow_accum_loops_def count_loops_def)
qed


subsection \<open>The element type \<open>U\<close> of the area raster\<close>

text \<open>
  In the source \<open>area\<close> is an \<open>Array2D<U>\<close> for a template parameter \<open>U\<close>: the
  increment of line 115 and the addition of line 130 are computed and then stored into
  a cell of type \<open>U\<close>, and so are the fill value 0 and the nodata value -1. The
  definitions above keep these values as unbounded integers. Here the conversion of an
  integer result to \<open>U\<close> is the parameter \<open>to_U\<close> of the model; for a signed integer
  type of \<open>w\<close> bits with wrap-around it is \<open>to_signed w\<close>.
\<close>

definition to_signed :: "nat \<Rightarrow> int \<Rightarrow> int" where
  "to_signed w v = (v + 2 ^ (w - 1)) mod 2 ^ w - 2 ^ (w - 1)"


text \<open>The body of the drain loop (lines 112 to 134) with the stores into \<open>U\<close>.\<close>

definition drain_cell_U :: "(int \<Rightarrow> int) \<Rightarrow> d8_consts \<Rightarrow> int Array2D \<Rightarrow> GridCell \<Rightarrow> fa_state \<Rightarrow> fa_state" where
  "drain_cell_U to_U k flowdirs c s =
     (case c of (cx, cy) \<Rightarrow>
        let s1 = s\<lparr>area := set_cell (area s) cx cy (to_U (cell (area s) cx cy + 1))\<rparr>;
            n = cell flowdirs cx cy in
        if n = NO_FLOW then s1
        else
          let nx = cx + dx k ! nat n; ny = cy + dy k ! nat n in
          if \<not> inGrid flowdirs nx ny then s1
          else if isNoData flowdirs nx ny then s1
          else
            let s2 = s1\<lparr>area :=
                       set_cell (area s1) nx ny (to_U (cell (area s1) nx ny + cell (area s1) cx cy))\<rparr>;
                s3 = s2\<lparr>dependency :=
                       set_cell (dependency s2) nx ny (cell (dependency s2) nx ny - 1)\<rparr> in
            if cell (dependency s3) nx ny = 0
            then s3\<lparr>sources := sources s3 @ [(nx, ny)]\<rparr>
            else s3)"

text \<open>
  The queue and the dependencies do not depend on the values of \<open>area\<close>, so the drain
  terminates for every \<open>to_U\<close> by the variant of \<open>drain\<close>.
\<close>

lemma drain_cell_U_control:
  "dependency (drain_cell_U to_U k fd c s) = dependency (drain_cell k fd c s) \<and>
   sources (drain_cell_U to_U k fd c s) = sources (drain_cell k fd c s)"
  by (cases c) (simp add: drain_cell_U_def drain_cell_def Let_def)

lemma pending_dependency: "dependency s = dependency t \<Longrightarrow> pending fd s = pending fd t"
  by (simp add: pending_def)

lemma drain_cell_U_variant:
  "2 * pending fd (drain_cell_U to_U k fd c s) + length (sources (drain_cell_U to_U k fd c s))
     \<le> 2 * pending fd s + length (sources s)"
  using drain_cell_variant[of fd k c s] drain_cell_U_control[of to_U k fd c s]
    pending_dependency[of "drain_cell_U to_U k fd c s" "drain_cell k fd c s" fd]
  by simp

function drain_U :: "(int \<Rightarrow> int) \<Rightarrow> d8_consts \<Rightarrow> int Array2D \<Rightarrow> fa_state \<Rightarrow> fa_state" where
  "drain_U to_U k flowdirs s =
     (case sources s of
        [] \<Rightarrow> s
      | c # rest \<Rightarrow> drain_U to_U k flowdirs (drain_cell_U to_U k flowdirs c (s\<lparr>sources := rest\<rparr>)))"
  by pat_completeness auto
termination
proof (relation "measure (\<lambda>(to_U, k, flowdirs, s). 2 * pending flowdirs s + length (sources s))")
  show "wf (measure (\<lambda>(to_U, k, flowdirs, s). 2 * pending flowdirs s + length (sources s)))"
    by simp
next
  fix to_U :: "int \<Rightarrow> int" and k :: d8_consts and flowdirs :: "int Array2D" and s :: fa_state and c rest
  assume "sources s = c # rest"
  then show "((to_U, k, flowdirs, drain_cell_U to_U k flowdirs c (s\<lparr>sources := rest\<rparr>)), (to_U, k, flowdirs, s))
      \<in> measure (\<lambda>(to_U, k, flowdirs, s). 2 * pending flowdirs s + length (sources s))"
    using drain_cell_U_variant[of flowdirs to_U k c "s\<lparr>sources := rest\<rparr>"] by simp
qed

declare drain_U.simps [simp del]

text \<open>Lines 64 to 68 and the two first phases, with the stores into \<open>U\<close>.\<close>

definition accum_init_U :: "(int \<Rightarrow> int) \<Rightarrow> int Array2D \<Rightarrow> int Array2D \<Rightarrow> fa_state" where
  "accum_init_U to_U flowdirs area0 =
     \<lparr>area = setNoData (resize area0 flowdirs (to_U 0)) (to_U (- 1)),
      dependency = setNoData (resize flowdirs flowdirs 0) 0,
      sources = []\<rparr>"

definition accum_sources_U :: "(int \<Rightarrow> int) \<Rightarrow> d8_consts \<Rightarrow> int Array2D \<Rightarrow> int Array2D \<Rightarrow> fa_state" where
  "accum_sources_U to_U k flowdirs area0 =
     (let s = foldl (dependency_cell k flowdirs) (accum_init_U to_U flowdirs area0) (grid_cells flowdirs) in
      s\<lparr>sources :=
          filter (\<lambda>c. cell (dependency s) (fst c) (snd c) = 0 \<and> \<not> isNoData flowdirs (fst c) (snd c))
            (grid_cells flowdirs)\<rparr>)"

text \<open>The out parameter \<open>area\<close> after the call, at the element type \<open>U\<close>.\<close>

definition d8_flow_accum_U :: "(int \<Rightarrow> int) \<Rightarrow> d8_consts \<Rightarrow> int Array2D \<Rightarrow> int Array2D \<Rightarrow> int Array2D" where
  "d8_flow_accum_U to_U k flowdirs area0 =
     area (drain_U to_U k flowdirs (accum_sources_U to_U k flowdirs area0))"















text \<open>
  The bound matters: at a signed type of 3 bits, which holds -4 to 3, the chain of five
  cells wraps at its fourth cell.
\<close>

lemma d8_flow_accum_U_wraps:
  "rows (d8_flow_accum_U (to_signed 3) compass (raster 5 1 255 [[3, 3, 3, 3, NO_FLOW]]) no_area)
     = [[1, 2, 3, - 4, - 3]]"
  by code_simp

section \<open>D8 upslope cells\<close>

text \<open>
  The line drawing of \<open>d8_upslope_cells\<close> computes with \<open>float\<close>. The model keeps
  the special values of IEEE 754 arithmetic, which decide what the source does when
  \<open>deltax\<close> is 0: a nonzero \<open>deltay\<close> divided by 0 is an infinity and 0 divided by 0 is
  a NaN, every comparison with a NaN is false, and an infinity absorbs a finite summand.
  Finite values are exact rationals: rounding is not modelled, so the model follows the
  source on the inputs whose intermediate values are representable, as the integers and
  infinities of the rasters evaluated below are.
\<close>

datatype float = Finite rat | PosInf | NegInf | NaN

text \<open>\<open>(float)a / (float)b\<close> for two \<open>int\<close> values.\<close>

definition float_div :: "int \<Rightarrow> int \<Rightarrow> float" where
  "float_div a b =
     (if b \<noteq> 0 then Finite (of_int a / of_int b)
      else if 0 < a then PosInf
      else if a < 0 then NegInf
      else NaN)"

fun float_neg :: "float \<Rightarrow> float" where
  "float_neg (Finite a) = Finite (- a)"
| "float_neg PosInf = NegInf"
| "float_neg NegInf = PosInf"
| "float_neg NaN = NaN"

fun float_add :: "float \<Rightarrow> float \<Rightarrow> float" where
  "float_add (Finite a) (Finite b) = Finite (a + b)"
| "float_add NaN _ = NaN"
| "float_add _ NaN = NaN"
| "float_add PosInf NegInf = NaN"
| "float_add NegInf PosInf = NaN"
| "float_add PosInf _ = PosInf"
| "float_add _ PosInf = PosInf"
| "float_add NegInf _ = NegInf"
| "float_add _ NegInf = NegInf"

text \<open>The comparisons \<open>v < r\<close> and \<open>v >= r\<close> of a float with a finite constant.\<close>

fun float_less :: "float \<Rightarrow> rat \<Rightarrow> bool" where
  "float_less (Finite a) r = (a < r)"
| "float_less NegInf r = True"
| "float_less PosInf r = False"
| "float_less NaN r = False"

fun float_ge :: "float \<Rightarrow> rat \<Rightarrow> bool" where
  "float_ge (Finite a) r = (r \<le> a)"
| "float_ge PosInf r = True"
| "float_ge NegInf r = False"
| "float_ge NaN r = False"

text \<open>The source's \<open>sgn\<close> (lines 30 to 33), at type \<open>int\<close>.\<close>

definition sgn_val :: "int \<Rightarrow> int" where
  "sgn_val val = (if 0 < val then 1 else 0) - (if val < 0 then 1 else 0)"

text \<open>
  The accessor of \<open>Array2D\<close> is unchecked (section 4.1 of the specification: callers
  must ensure \<open>inGrid\<close>). The flow accumulation guards every access; the line drawing
  below writes to \<open>upslope_cells(x, y)\<close> and \<open>upslope_cells(x + 1, y)\<close> with no guard.
  A write outside the grid is undefined behaviour in the source; the model stops there
  with the outcome \<open>Unchecked_Access\<close>.
\<close>

datatype fault = Unchecked_Access

text \<open>The line drawing loop (lines 206 to 216), from the column \<open>x\<close> on.\<close>

function line_loop ::
  "int \<Rightarrow> int \<Rightarrow> float \<Rightarrow> int \<Rightarrow> int \<Rightarrow> float \<Rightarrow> GridCell list \<Rightarrow> int Array2D
     \<Rightarrow> fault + (GridCell list \<times> int Array2D)" where
  "line_loop x1 deltay deltaerr x y error expansion upslope_cells =
     (if x \<le> x1 then
        if \<not> inGrid upslope_cells x y then Inl Unchecked_Access
        else
          let expansion1 = expansion @ [(x, y)];
              upslope1 = set_cell upslope_cells x y 2;
              error1 = float_add error deltaerr in
          if float_ge error1 (1 / 2) then
            if \<not> inGrid upslope1 (x + 1) y then Inl Unchecked_Access
            else
              line_loop x1 deltay deltaerr (x + 1) (y + sgn_val deltay)
                (float_add error1 (Finite (- 1)))
                (expansion1 @ [(x + 1, y)]) (set_cell upslope1 (x + 1) y 2)
          else line_loop x1 deltay deltaerr (x + 1) y error1 expansion1 upslope1
      else Inr (expansion, upslope_cells))"
  by pat_completeness auto
termination
  by (relation "measure (\<lambda>(x1, deltay, deltaerr, x, y, error, expansion, upslope_cells). nat (x1 + 1 - x))")
     auto

declare line_loop.simps [simp del]

text \<open>Lines 190 to 216: the swap of the endpoints, the slope and the line drawing.\<close>

definition upslope_line ::
  "int \<Rightarrow> int \<Rightarrow> int \<Rightarrow> int \<Rightarrow> int Array2D \<Rightarrow> fault + (GridCell list \<times> int Array2D)" where
  "upslope_line x0 y0 x1 y1 upslope_cells =
     (let (x0', y0', x1', y1') = (if x0 > x1 then (x1, y1, x0, y0) else (x0, y0, x1, y1));
          deltax = x1' - x0';
          deltay = y1' - y0';
          deltaerr0 = float_div deltay deltax;
          deltaerr = (if float_less deltaerr0 0 then float_neg deltaerr0 else deltaerr0)
      in line_loop x1' deltay deltaerr x0' y0' (Finite 0) [] upslope_cells)"

text \<open>
  The body of the loop over the neighbours \<open>n = 1, ..., 8\<close> of a dequeued cell \<open>c\<close>
  (lines 227 to 236).
\<close>

definition visit ::
  "d8_consts \<Rightarrow> int Array2D \<Rightarrow> GridCell \<Rightarrow> GridCell list \<times> int Array2D \<Rightarrow> int
     \<Rightarrow> GridCell list \<times> int Array2D" where
  "visit k flowdirs c st n =
     (case st of (expansion, upslope_cells) \<Rightarrow>
        let nx = fst c + dx k ! nat n; ny = snd c + dy k ! nat n in
        if \<not> inGrid flowdirs nx ny then st
        else if cell flowdirs nx ny = NO_FLOW then st
        else if cell flowdirs nx ny = noData flowdirs then st
        else if cell upslope_cells nx ny = noData upslope_cells \<and>
                n = d8_inverse k ! nat (cell flowdirs nx ny)
        then (expansion @ [(nx, ny)], set_cell upslope_cells nx ny 1)
        else st)"

text \<open>
  The expansion loop (lines 220 to 237). Whether it terminates depends on the nodata
  value: \<open>expand_terminates\<close> shows that it does whenever nodata is not the mark 1.
\<close>

partial_function (option) expand ::
  "d8_consts \<Rightarrow> int Array2D \<Rightarrow> GridCell list \<Rightarrow> int Array2D \<Rightarrow> int Array2D option" where
  "expand k flowdirs expansion upslope_cells =
     (case expansion of
        [] \<Rightarrow> Some upslope_cells
      | c # rest \<Rightarrow>
          (case foldl (visit k flowdirs c) (rest, upslope_cells) [1, 2, 3, 4, 5, 6, 7, 8] of
             (expansion', upslope') \<Rightarrow> expand k flowdirs expansion' upslope'))"

declare expand.simps [code]

text \<open>
  Lines 182 to 184: \<open>upslope_cells\<close> takes the shape of \<open>flowdirs\<close>, every cell and the
  nodata value are set to \<open>FLOWDIR_NO_DATA\<close>.
\<close>

definition upslope_reset :: "d8_consts \<Rightarrow> int Array2D \<Rightarrow> int Array2D \<Rightarrow> int Array2D" where
  "upslope_reset k flowdirs upslope0 =
     setNoData (setAll (resize upslope0 flowdirs 0) (FLOWDIR_NO_DATA k)) (FLOWDIR_NO_DATA k)"

text \<open>
  The call: \<open>None\<close> if the expansion loop runs forever, \<open>Some (Inl Unchecked_Access)\<close>
  if the line drawing writes outside the grid, \<open>Some (Inr u)\<close> if it returns with the
  out parameter \<open>upslope_cells\<close> equal to \<open>u\<close>.
\<close>

definition d8_upslope_cells ::
  "d8_consts \<Rightarrow> int \<Rightarrow> int \<Rightarrow> int \<Rightarrow> int \<Rightarrow> int Array2D \<Rightarrow> int Array2D
     \<Rightarrow> (fault + int Array2D) option" where
  "d8_upslope_cells k x0 y0 x1 y1 flowdirs upslope0 =
     (let upslope_cells = upslope_reset k flowdirs upslope0
      in case upslope_line x0 y0 x1 y1 upslope_cells of
           Inl e \<Rightarrow> Some (Inl e)
         | Inr (expansion, upslope1) \<Rightarrow> map_option Inr (expand k flowdirs expansion upslope1))"

text \<open>
  A 10 by 10 raster in which every cell flows east, and a 3 by 2 raster of \<open>NO_FLOW\<close>
  cells.
\<close>

definition all_east :: "int Array2D" where
  "all_east = raster 10 10 255 (replicate 10 (replicate 10 3))"




subsection \<open>The expansion loop terminates\<close>




definition shape_of :: "int Array2D \<Rightarrow> int \<times> int \<times> int" where
  "shape_of u = (width u, height u, noData u)"




lemma inGrid_set_cell [simp]: "inGrid (set_cell u x y v) a b = inGrid u a b"
  by (simp add: inGrid_def set_cell_def)

lemma shape_set_cell [simp]: "shape_of (set_cell u x y v) = shape_of u"
  by (simp add: shape_of_def set_cell_def)







section \<open>The composite indices SPI and CTI\<close>

text \<open>
  The rasters are kept at type \<open>real\<close>: the source computes the indices in \<open>double\<close>,
  and rounding is not modelled. \<open>Runtime_Error\<close> is \<open>std::runtime_error\<close> with its message.
\<close>

datatype error = Runtime_Error string

text \<open>
  Modelled from the spec: \<open>getCellArea\<close> belongs to the missing Array2D.hpp; section 3
  of the specification gives cell area = cellLengthX * cellLengthY.
\<close>

definition getCellArea :: "'a Array2D \<Rightarrow> real" where
  "getCellArea r = cellLengthX r * cellLengthY r"

text \<open>The cells in the order of the loops of \<open>TA_SPI\<close> and \<open>TA_CTI\<close>: columns outermost.\<close>

definition grid_cells_by_column :: "'a Array2D \<Rightarrow> GridCell list" where
  "grid_cells_by_column r =
     concat (map (\<lambda>x. map (\<lambda>y. (int x, int y)) [0..<nat (height r)]) [0..<nat (width r)])"

text \<open>The loop bodies (lines 286 to 289 and 338 to 341).\<close>

definition SPI_cell :: "real Array2D \<Rightarrow> real Array2D \<Rightarrow> real Array2D \<Rightarrow> GridCell \<Rightarrow> real Array2D" where
  "SPI_cell flow_accumulation riserun_slope result c =
     (case c of (x, y) \<Rightarrow>
        if cell flow_accumulation x y = noData flow_accumulation \<or>
           cell riserun_slope x y = noData riserun_slope
        then set_cell result x y (noData result)
        else set_cell result x y
               (ln ((cell flow_accumulation x y / getCellArea flow_accumulation) *
                    (cell riserun_slope x y + 0.001))))"

definition CTI_cell :: "real Array2D \<Rightarrow> real Array2D \<Rightarrow> real Array2D \<Rightarrow> GridCell \<Rightarrow> real Array2D" where
  "CTI_cell flow_accumulation riserun_slope result c =
     (case c of (x, y) \<Rightarrow>
        if cell flow_accumulation x y = noData flow_accumulation \<or>
           cell riserun_slope x y = noData riserun_slope
        then set_cell result x y (noData result)
        else set_cell result x y
               (ln ((cell flow_accumulation x y / getCellArea flow_accumulation) /
                    (cell riserun_slope x y + 0.001))))"

text \<open>
  \<open>TA_SPI\<close> and \<open>TA_CTI\<close>: the outcome (\<open>Some\<close> the exception thrown, \<open>None\<close> for a
  normal return) and the out parameter \<open>result\<close> after the call.
\<close>

definition TA_SPI :: "real Array2D \<Rightarrow> real Array2D \<Rightarrow> real Array2D \<Rightarrow> error option \<times> real Array2D" where
  "TA_SPI flow_accumulation riserun_slope result =
     (if width flow_accumulation \<noteq> width riserun_slope \<or>
         height flow_accumulation \<noteq> height riserun_slope
      then (Some (Runtime_Error
              ''Couldn't calculate SPI! The input matricies were of unequal dimensions!''), result)
      else
        (None,
         foldl (SPI_cell flow_accumulation riserun_slope)
           (setNoData (resize result flow_accumulation 0) (- 1))
           (grid_cells_by_column flow_accumulation)))"

definition TA_CTI :: "real Array2D \<Rightarrow> real Array2D \<Rightarrow> real Array2D \<Rightarrow> error option \<times> real Array2D" where
  "TA_CTI flow_accumulation riserun_slope result =
     (if width flow_accumulation \<noteq> width riserun_slope \<or>
         height flow_accumulation \<noteq> height riserun_slope
      then (Some (Runtime_Error
              ''Couldn't calculate CTI! The input matricies were of unequal dimensions!''), result)
      else
        (None,
         foldl (CTI_cell flow_accumulation riserun_slope)
           (setNoData (resize result flow_accumulation 0) (- 1))
           (grid_cells_by_column flow_accumulation)))"

definition shape4 :: "'a Array2D \<Rightarrow> int \<times> int \<times> 'a \<times> real \<times> real" where
  "shape4 r = (width r, height r, noData r, cellLengthX r, cellLengthY r)"

lemma shape4_SPI_cell [simp]: "shape4 (SPI_cell fa rs r c) = shape4 r"
  by (cases c) (simp add: SPI_cell_def shape4_def set_cell_def)

lemma shape4_CTI_cell [simp]: "shape4 (CTI_cell fa rs r c) = shape4 r"
  by (cases c) (simp add: CTI_cell_def shape4_def set_cell_def)

lemma shape4_foldl_SPI [simp]: "shape4 (foldl (SPI_cell fa rs) r cs) = shape4 r"
  by (induction cs arbitrary: r) simp_all

lemma shape4_foldl_CTI [simp]: "shape4 (foldl (CTI_cell fa rs) r cs) = shape4 r"
  by (induction cs arbitrary: r) simp_all

lemma TA_SPI_ok:
  assumes "width fa = width rs" "height fa = height rs"
  shows "fst (TA_SPI fa rs r) = None \<and>
         shape4 (snd (TA_SPI fa rs r)) = (width fa, height fa, - 1, cellLengthX fa, cellLengthY fa)"
  using assms by (simp add: TA_SPI_def) (simp add: shape4_def setNoData_def resize_def)

lemma TA_CTI_ok:
  assumes "width fa = width rs" "height fa = height rs"
  shows "fst (TA_CTI fa rs r) = None \<and>
         shape4 (snd (TA_CTI fa rs r)) = (width fa, height fa, - 1, cellLengthX fa, cellLengthY fa)"
  using assms by (simp add: TA_CTI_def) (simp add: shape4_def setNoData_def resize_def)



section \<open>Terrain attributes\<close>




























section \<open>The claims\<close>



text \<open>
  C2, evaluated on two cells that flow into each other: both cells keep the dependency 1
  after the drain, so two data cells have a positive dependency, and the number the
  source logs is 0 (it adds \<open>countval(-1)\<close> eight times).
\<close>

theorem d8_flow_accum_loops_two_cycle:
  "d8_flow_accum_loops compass two_cycle no_area = 0 \<and>
   cycle_cells two_cycle (d8_flow_accum_run compass two_cycle no_area) = 2"
  by code_simp



text \<open>
  C4. For every direction raster, the area raster the drain phase produces is the same
  for every processing order: whatever pending cell each iteration dequeues (a cell is
  pending only once all its upstream contributors have been processed), a run that
  empties the container ends with the area raster of \<open>d8_flow_accum\<close>; in particular
  the drain with a stack, a priority queue or any other discipline \<open>pick\<close> in place
  of the FIFO queue yields the identical raster.
\<close>

theorem d8_flow_accum_order_independent:
  assumes "dirs_ok k flowdirs"
  shows "(\<forall>s'. (drain_step k flowdirs)\<^sup>*\<^sup>* (accum_sources k flowdirs area0) s' \<and> sources s' = []
            \<longrightarrow> area s' = d8_flow_accum k flowdirs area0) \<and>
         (\<forall>pick. area (drain_with pick k flowdirs (accum_sources k flowdirs area0))
            = d8_flow_accum k flowdirs area0)"
proof (intro conjI allI impI)
  fix s' assume "(drain_step k flowdirs)\<^sup>*\<^sup>* (accum_sources k flowdirs area0) s' \<and> sources s' = []"
  then show "area s' = d8_flow_accum k flowdirs area0" using run_area by blast
next
  fix pick
  show "area (drain_with pick k flowdirs (accum_sources k flowdirs area0)) = d8_flow_accum k flowdirs area0"
    using drain_with_steps sources_drain_with by (rule run_area)
qed

theorem d8_flow_accum_order_independent_witness:
  "dirs_ok compass fork \<and>
   (drain_step compass fork)\<^sup>*\<^sup>* (accum_sources compass fork no_area)
      (drain_with lifo compass fork (accum_sources compass fork no_area)) \<and>
   sources (drain_with lifo compass fork (accum_sources compass fork no_area)) = [] \<and>
   area (drain_with lifo compass fork (accum_sources compass fork no_area))
     = d8_flow_accum compass fork no_area \<and>
   rows (d8_flow_accum compass fork no_area) = [[1, 1, 1], [1, 5, 1], [1, 1, 1]]"
proof -
  have ok: "dirs_ok compass fork" by code_simp
  have run: "(drain_step compass fork)\<^sup>*\<^sup>* (accum_sources compass fork no_area)
      (drain_with lifo compass fork (accum_sources compass fork no_area))"
    by (rule drain_with_steps)
  have emp: "sources (drain_with lifo compass fork (accum_sources compass fork no_area)) = []"
    by simp
  have "area (drain_with lifo compass fork (accum_sources compass fork no_area))
     = d8_flow_accum compass fork no_area"
    using d8_flow_accum_order_independent[OF ok, of no_area] run emp by blast
  moreover have "rows (d8_flow_accum compass fork no_area) = [[1, 1, 1], [1, 5, 1], [1, 1, 1]]"
    by code_simp
  ultimately show ?thesis using ok run emp by blast
qed

definition wide :: "real Array2D" where
  "wide = raster 2 1 (- 1) [[4, 2]]"

definition narrow :: "real Array2D" where
  "narrow = raster 1 1 (- 1) [[3]]"

text \<open>
  C5. \<open>TA_SPI\<close> and \<open>TA_CTI\<close> throw exactly when the two inputs differ in width or in
  height; they then throw a runtime error with its message and leave \<open>result\<close>
  unchanged; otherwise \<open>result\<close> has the width and height of the flow accumulation
  raster and the nodata value -1.
\<close>

theorem TA_SPI_CTI_shape_check:
  "(fst (TA_SPI fa rs r) \<noteq> None \<longleftrightarrow> width fa \<noteq> width rs \<or> height fa \<noteq> height rs) \<and>
   (fst (TA_CTI fa rs r) \<noteq> None \<longleftrightarrow> width fa \<noteq> width rs \<or> height fa \<noteq> height rs) \<and>
   (width fa \<noteq> width rs \<or> height fa \<noteq> height rs \<longrightarrow>
      TA_SPI fa rs r = (Some (Runtime_Error
         ''Couldn't calculate SPI! The input matricies were of unequal dimensions!''), r) \<and>
      TA_CTI fa rs r = (Some (Runtime_Error
         ''Couldn't calculate CTI! The input matricies were of unequal dimensions!''), r)) \<and>
   (width fa = width rs \<and> height fa = height rs \<longrightarrow>
      width (snd (TA_SPI fa rs r)) = width fa \<and> height (snd (TA_SPI fa rs r)) = height fa \<and>
      noData (snd (TA_SPI fa rs r)) = - 1 \<and>
      width (snd (TA_CTI fa rs r)) = width fa \<and> height (snd (TA_CTI fa rs r)) = height fa \<and>
      noData (snd (TA_CTI fa rs r)) = - 1)"
proof -
  have bad: "width fa \<noteq> width rs \<or> height fa \<noteq> height rs \<Longrightarrow>
      TA_SPI fa rs r = (Some (Runtime_Error
         ''Couldn't calculate SPI! The input matricies were of unequal dimensions!''), r) \<and>
      TA_CTI fa rs r = (Some (Runtime_Error
         ''Couldn't calculate CTI! The input matricies were of unequal dimensions!''), r)"
    by (auto simp: TA_SPI_def TA_CTI_def)
  have good: "width fa = width rs \<and> height fa = height rs \<Longrightarrow>
      fst (TA_SPI fa rs r) = None \<and> fst (TA_CTI fa rs r) = None \<and>
      width (snd (TA_SPI fa rs r)) = width fa \<and> height (snd (TA_SPI fa rs r)) = height fa \<and>
      noData (snd (TA_SPI fa rs r)) = - 1 \<and>
      width (snd (TA_CTI fa rs r)) = width fa \<and> height (snd (TA_CTI fa rs r)) = height fa \<and>
      noData (snd (TA_CTI fa rs r)) = - 1"
    using TA_SPI_ok[of fa rs r] TA_CTI_ok[of fa rs r] by (simp add: shape4_def)
  show ?thesis
  proof (cases "width fa = width rs \<and> height fa = height rs")
    case True
    then show ?thesis using good by simp
  next
    case False
    then show ?thesis using bad by auto
  qed
qed

theorem TA_SPI_CTI_shape_check_witness:
  "width wide \<noteq> width narrow \<and>
   fst (TA_SPI wide narrow narrow) \<noteq> None \<and> snd (TA_SPI wide narrow narrow) = narrow \<and>
   fst (TA_CTI wide narrow narrow) \<noteq> None \<and> snd (TA_CTI wide narrow narrow) = narrow \<and>
   width wide = width wide \<and> height wide = height wide \<and>
   fst (TA_SPI wide wide narrow) = None \<and>
   width (snd (TA_SPI wide wide narrow)) = 2 \<and> height (snd (TA_SPI wide wide narrow)) = 1 \<and>
   noData (snd (TA_SPI wide wide narrow)) = - 1 \<and>
   width (snd (TA_CTI wide wide narrow)) = 2 \<and> height (snd (TA_CTI wide wide narrow)) = 1 \<and>
   noData (snd (TA_CTI wide wide narrow)) = - 1"
proof -
  have w: "width wide = 2" "height wide = 1" "width narrow = 1" "height narrow = 1"
    by (simp_all add: wide_def narrow_def raster_def)
  show ?thesis
    using TA_SPI_CTI_shape_check[of wide narrow narrow] TA_SPI_CTI_shape_check[of wide wide narrow] w
    by auto
qed

text \<open>
  C6, evaluated on the 10 by 10 raster in which every cell flows east, for the segment
  from (5, 0) to (5, 9): \<open>deltax\<close> is 0, \<open>deltaerr\<close> is infinite, the line loop runs once
  and marks (5, 0) and (6, 0) with 2; the expansion marks (0, 0) to (4, 0) with 1; every
  cell of the rows 1 to 9 stays nodata.
\<close>

theorem d8_upslope_cells_vertical_segment:
  "map_option (map_sum id rows) (d8_upslope_cells compass 5 0 5 9 all_east no_area)
     = Some (Inr ([1, 1, 1, 1, 1, 2, 2, 255, 255, 255] # replicate 9 (replicate 10 255)))"
  by code_simp









text \<open>
  C10. During the drain phase every cell is pushed onto the queue at most once: the cells
  enqueued by the source scan followed by the cells the drain loop pushes are pairwise
  distinct. Hence the cells the loop dequeues are pairwise distinct, the self increment
  runs at most once per cell, and the loop terminates for every direction raster: it runs
  at most as many iterations as there are data cells and leaves the queue empty.
\<close>

theorem drain_dequeues_once:
  assumes "dirs_ok k flowdirs"
  shows "distinct (sources (accum_sources k flowdirs area0) @
                   drain_pushes k flowdirs (accum_sources k flowdirs area0)) \<and>
         distinct (drain_order k flowdirs (accum_sources k flowdirs area0)) \<and>
         length (drain_order k flowdirs (accum_sources k flowdirs area0)) \<le> nat (numDataCells flowdirs) \<and>
         sources (d8_flow_accum_run k flowdirs area0) = []"
proof -
  have "distinct (drain_order k flowdirs (accum_sources k flowdirs area0))"
    using drain_order_fresh[OF accum_sources_inv, of k flowdirs area0] by blast
  moreover have "distinct (sources (accum_sources k flowdirs area0) @
                   drain_pushes k flowdirs (accum_sources k flowdirs area0))"
    using drain_pushes_fresh[OF accum_sources_inv, of k flowdirs area0] by blast
  ultimately show ?thesis
    using drain_order_bound[of k flowdirs area0] by (simp add: d8_flow_accum_run_def)
qed

theorem drain_dequeues_once_witness:
  "dirs_ok compass fork \<and>
   sources (accum_sources compass fork no_area)
     = [(0, 0), (1, 0), (2, 0), (0, 1), (2, 1), (0, 2), (1, 2), (2, 2)] \<and>
   drain_pushes compass fork (accum_sources compass fork no_area) = [(1, 1)] \<and>
   drain_order compass fork (accum_sources compass fork no_area)
     = [(0, 0), (1, 0), (2, 0), (0, 1), (2, 1), (0, 2), (1, 2), (2, 2), (1, 1)] \<and>
   distinct (sources (accum_sources compass fork no_area) @
             drain_pushes compass fork (accum_sources compass fork no_area)) \<and>
   distinct (drain_order compass fork (accum_sources compass fork no_area)) \<and>
   length (drain_order compass fork (accum_sources compass fork no_area)) \<le> nat (numDataCells fork) \<and>
   sources (d8_flow_accum_run compass fork no_area) = []"
proof -
  have ok: "dirs_ok compass fork" by code_simp
  have q: "sources (accum_sources compass fork no_area)
     = [(0, 0), (1, 0), (2, 0), (0, 1), (2, 1), (0, 2), (1, 2), (2, 2)]" by code_simp
  have p: "drain_pushes compass fork (accum_sources compass fork no_area) = [(1, 1)]" by code_simp
  have o: "drain_order compass fork (accum_sources compass fork no_area)
     = [(0, 0), (1, 0), (2, 0), (0, 1), (2, 1), (0, 2), (1, 2), (2, 2), (1, 1)]" by code_simp
  show ?thesis using drain_dequeues_once[OF ok, of no_area] ok q p o by simp
qed

end
